theory Spec2Isabelle
  imports Main "HOL-Library.Word" "HOL-Library.Monad_Syntax"
begin

section \<open>Go values and runtime primitives\<close>

text \<open>
  The buffer engine is the Go package \<open>buffer\<close>. Bytes are 8-bit words and a
  byte slice is a list of bytes; a \<open>nil\<close> slice and an empty slice are both the empty
  list (they have the same length and the same elements). Values of the Go types \<open>int64\<close> and
  \<open>int\<close> (64 bits wide on the platforms the editor targets) are integers in the range of
  \<open>is_int64\<close>; every addition or subtraction that can leave the range is written with the
  two's-complement wrap-around \<open>wrap64\<close>. A run-time panic (index out of range, slice bounds out
  of range, \<open>makeslice: len out of range\<close>) is the result \<open>None\<close>.

  A method with a pointer receiver takes the buffer and returns the updated buffer. Byte
  slices passed to a method are values: the caller's slice does not share its array with the
  buffer (the operations copy what they log, and \<open>GetBytes\<close> returns a copy). Memory is not
  bounded: an allocation fails only for a negative length.
\<close>

type_synonym byte = "8 word"
type_synonym bytes = "byte list"

definition is_int64 :: "int \<Rightarrow> bool" where
  "is_int64 x = (- (2 ^ 63) \<le> x \<and> x < 2 ^ 63)"

definition wrap64 :: "int \<Rightarrow> int" where
  "wrap64 x = (x + 2 ^ 63) mod 2 ^ 64 - 2 ^ 63"

abbreviation len :: "'a list \<Rightarrow> int" where
  "len xs \<equiv> int (length xs)"

text \<open>\<open>make([]byte, n)\<close>: a zeroed slice of length \<open>n\<close>; panics when \<open>n\<close> is negative.\<close>

definition makeslice :: "int \<Rightarrow> bytes option" where
  "makeslice n = (if n < 0 then None else Some (replicate (nat n) 0))"

text \<open>\<open>s[lo:hi]\<close>, with the bounds check \<open>0 \<le> lo \<le> hi \<le> len(s)\<close> (the capacity of a
  slice is taken to be its length).\<close>

definition slice :: "'a list \<Rightarrow> int \<Rightarrow> int \<Rightarrow> 'a list option" where
  "slice s lo hi =
     (if 0 \<le> lo \<and> lo \<le> hi \<and> hi \<le> len s
      then Some (take (nat (hi - lo)) (drop (nat lo) s)) else None)"

text \<open>\<open>s[i]\<close> as a read, and \<open>s[i] = v\<close> as a write.\<close>

definition index :: "'a list \<Rightarrow> int \<Rightarrow> 'a option" where
  "index s i = (if 0 \<le> i \<and> i < len s then Some (s ! nat i) else None)"

definition store :: "'a list \<Rightarrow> int \<Rightarrow> 'a \<Rightarrow> 'a list option" where
  "store s i v = (if 0 \<le> i \<and> i < len s then Some (s[nat i := v]) else None)"

text \<open>\<open>copy(dst, src)\<close> overwrites the first \<open>min(len(dst), len(src))\<close> elements of \<open>dst\<close>;
  \<open>copy(dst[lo:], src)\<close> does so from position \<open>lo\<close> of \<open>dst\<close>, after the bounds check of the
  slice expression.\<close>

definition copy :: "'a list \<Rightarrow> 'a list \<Rightarrow> 'a list" where
  "copy dst src = take (length dst) src @ drop (length src) dst"

definition copy_from :: "'a list \<Rightarrow> int \<Rightarrow> 'a list \<Rightarrow> 'a list option" where
  "copy_from dst lo src =
     (if 0 \<le> lo \<and> lo \<le> len dst
      then Some (take (nat lo) dst @ copy (drop (nat lo) dst) src) else None)"

section \<open>The buffer\<close>

datatype OpType = OpInsert | OpDelete | OpReplace

record Operation =
  Type :: OpType
  Offset :: int
  OldData :: bytes
  NewData :: bytes

record Buffer =
  filename :: string
  data :: bytes
  originalHash :: string
  modified :: bool
  undoStack :: "Operation list"
  redoStack :: "Operation list"
  isNew :: bool

definition New :: Buffer where
  "New = \<lparr>filename = '''', data = [], originalHash = '''', modified = False,
          undoStack = [], redoStack = [], isNew = True\<rparr>"

definition Filename :: "Buffer \<Rightarrow> string" where
  "Filename b = filename b"

definition SetFilename :: "Buffer \<Rightarrow> string \<Rightarrow> Buffer" where
  "SetFilename b name = b\<lparr>filename := name, isNew := False\<rparr>"

definition IsNew :: "Buffer \<Rightarrow> bool" where
  "IsNew b = isNew b"

definition IsModified :: "Buffer \<Rightarrow> bool" where
  "IsModified b = modified b"

definition Size :: "Buffer \<Rightarrow> int" where
  "Size b = len (data b)"

definition Data :: "Buffer \<Rightarrow> bytes" where
  "Data b = data b"

definition GetByte :: "Buffer \<Rightarrow> int \<Rightarrow> (byte \<times> bool) option" where
  "GetByte b offset =
     (if offset < 0 \<or> offset \<ge> len (data b) then Some (0, False)
      else do { x \<leftarrow> index (data b) offset; Some (x, True) })"

definition GetBytes :: "Buffer \<Rightarrow> int \<Rightarrow> int \<Rightarrow> bytes option" where
  "GetBytes b offset count =
     (if offset < 0 \<or> offset \<ge> len (data b) then Some []
      else
        let end = wrap64 (offset + count);
            end = (if end > len (data b) then len (data b) else end)
        in do {
          result \<leftarrow> makeslice (wrap64 (end - offset));
          s \<leftarrow> slice (data b) offset end;
          Some (copy result s)
        })"

definition Insert :: "Buffer \<Rightarrow> int \<Rightarrow> bytes \<Rightarrow> Buffer option" where
  "Insert b offset ds =
     (let offset = (if offset < 0 then 0 else offset);
          offset = (if offset > len (data b) then len (data b) else offset)
      in do {
        nd \<leftarrow> makeslice (len ds);
        let op = \<lparr>Type = OpInsert, Offset = offset, OldData = [], NewData = copy nd ds\<rparr>;
        let b = b\<lparr>undoStack := undoStack b @ [op], redoStack := []\<rparr>;
        newData \<leftarrow> makeslice (wrap64 (len (data b) + len ds));
        s \<leftarrow> slice (data b) 0 offset;
        let newData = copy newData s;
        newData \<leftarrow> copy_from newData offset ds;
        s \<leftarrow> slice (data b) offset (len (data b));
        newData \<leftarrow> copy_from newData (wrap64 (offset + len ds)) s;
        Some (b\<lparr>data := newData, modified := True\<rparr>)
      })"

definition Delete :: "Buffer \<Rightarrow> int \<Rightarrow> int \<Rightarrow> Buffer option" where
  "Delete b offset count =
     (if offset < 0 \<or> offset \<ge> len (data b) \<or> count \<le> 0 then Some b
      else
        let count = (if wrap64 (offset + count) > len (data b)
                     then len (data b) - offset else count)
        in do {
          od \<leftarrow> makeslice count;
          s \<leftarrow> slice (data b) offset (wrap64 (offset + count));
          let op = \<lparr>Type = OpDelete, Offset = offset, OldData = copy od s, NewData = []\<rparr>;
          let b = b\<lparr>undoStack := undoStack b @ [op], redoStack := []\<rparr>;
          newData \<leftarrow> makeslice (len (data b) - count);
          s \<leftarrow> slice (data b) 0 offset;
          let newData = copy newData s;
          s \<leftarrow> slice (data b) (wrap64 (offset + count)) (len (data b));
          newData \<leftarrow> copy_from newData offset s;
          Some (b\<lparr>data := newData, modified := True\<rparr>)
        })"

definition Replace :: "Buffer \<Rightarrow> int \<Rightarrow> byte \<Rightarrow> Buffer option" where
  "Replace b offset newByte =
     (if offset < 0 \<or> offset \<ge> len (data b) then Some b
      else do {
        old \<leftarrow> index (data b) offset;
        let op = \<lparr>Type = OpReplace, Offset = offset, OldData = [old], NewData = [newByte]\<rparr>;
        let b = b\<lparr>undoStack := undoStack b @ [op], redoStack := []\<rparr>;
        d \<leftarrow> store (data b) offset newByte;
        Some (b\<lparr>data := d, modified := True\<rparr>)
      })"

text \<open>\<open>for i, d := range data\<close>: the loop runs over the bytes of \<open>data\<close> with their index.\<close>

fun ReplaceBytes_loop :: "Buffer \<Rightarrow> int \<Rightarrow> int \<Rightarrow> bytes \<Rightarrow> Buffer option" where
  "ReplaceBytes_loop b offset i [] = Some b"
| "ReplaceBytes_loop b offset i (d # ds) =
     (let pos = wrap64 (offset + i) in
      do {
        b \<leftarrow> (if pos \<ge> len (data b) then Insert b (len (data b)) [d] else Replace b pos d);
        ReplaceBytes_loop b offset (i + 1) ds
      })"

definition ReplaceBytes :: "Buffer \<Rightarrow> int \<Rightarrow> bytes \<Rightarrow> Buffer option" where
  "ReplaceBytes b offset ds = ReplaceBytes_loop b offset 0 ds"

definition Undo :: "Buffer \<Rightarrow> (Buffer \<times> bool) option" where
  "Undo b =
     (if length (undoStack b) = 0 then Some (b, False)
      else
        let op = last (undoStack b);
            b = b\<lparr>undoStack := butlast (undoStack b)\<rparr>
        in do {
          b \<leftarrow> (case Type op of
                 OpInsert \<Rightarrow> do {
                   newData \<leftarrow> makeslice (len (data b) - len (NewData op));
                   s \<leftarrow> slice (data b) 0 (Offset op);
                   let newData = copy newData s;
                   s \<leftarrow> slice (data b) (wrap64 (Offset op + len (NewData op))) (len (data b));
                   newData \<leftarrow> copy_from newData (Offset op) s;
                   Some (b\<lparr>data := newData\<rparr>)
                 }
               | OpDelete \<Rightarrow> do {
                   newData \<leftarrow> makeslice (wrap64 (len (data b) + len (OldData op)));
                   s \<leftarrow> slice (data b) 0 (Offset op);
                   let newData = copy newData s;
                   newData \<leftarrow> copy_from newData (Offset op) (OldData op);
                   s \<leftarrow> slice (data b) (Offset op) (len (data b));
                   newData \<leftarrow> copy_from newData (wrap64 (Offset op + len (OldData op))) s;
                   Some (b\<lparr>data := newData\<rparr>)
                 }
               | OpReplace \<Rightarrow> do {
                   x \<leftarrow> index (OldData op) 0;
                   d \<leftarrow> store (data b) (Offset op) x;
                   Some (b\<lparr>data := d\<rparr>)
                 });
          Some (b\<lparr>redoStack := redoStack b @ [op], modified := (length (undoStack b) > 0)\<rparr>,
                True)
        })"

definition Redo :: "Buffer \<Rightarrow> (Buffer \<times> bool) option" where
  "Redo b =
     (if length (redoStack b) = 0 then Some (b, False)
      else
        let op = last (redoStack b);
            b = b\<lparr>redoStack := butlast (redoStack b)\<rparr>
        in do {
          b \<leftarrow> (case Type op of
                 OpInsert \<Rightarrow> do {
                   newData \<leftarrow> makeslice (wrap64 (len (data b) + len (NewData op)));
                   s \<leftarrow> slice (data b) 0 (Offset op);
                   let newData = copy newData s;
                   newData \<leftarrow> copy_from newData (Offset op) (NewData op);
                   s \<leftarrow> slice (data b) (Offset op) (len (data b));
                   newData \<leftarrow> copy_from newData (wrap64 (Offset op + len (NewData op))) s;
                   Some (b\<lparr>data := newData\<rparr>)
                 }
               | OpDelete \<Rightarrow> do {
                   newData \<leftarrow> makeslice (len (data b) - len (OldData op));
                   s \<leftarrow> slice (data b) 0 (Offset op);
                   let newData = copy newData s;
                   s \<leftarrow> slice (data b) (wrap64 (Offset op + len (OldData op))) (len (data b));
                   newData \<leftarrow> copy_from newData (Offset op) s;
                   Some (b\<lparr>data := newData\<rparr>)
                 }
               | OpReplace \<Rightarrow> do {
                   x \<leftarrow> index (NewData op) 0;
                   d \<leftarrow> store (data b) (Offset op) x;
                   Some (b\<lparr>data := d\<rparr>)
                 });
          Some (b\<lparr>undoStack := undoStack b @ [op], modified := True\<rparr>, True)
        })"

definition CanUndo :: "Buffer \<Rightarrow> bool" where
  "CanUndo b = (length (undoStack b) > 0)"

definition CanRedo :: "Buffer \<Rightarrow> bool" where
  "CanRedo b = (length (redoStack b) > 0)"

section \<open>Search\<close>

text \<open>The inner loop \<open>for j := 0; j < len(pattern); j++\<close> compares \<open>b.data[i+int64(j)]\<close> with
  \<open>pattern[j]\<close>; its argument list is the part of the pattern from \<open>j\<close> on. The sum
  \<open>i + j\<close> stays in range: \<open>i\<close> is an \<open>int64\<close> and at most \<open>len(b.data) - len(pattern)\<close>, and
  \<open>j\<close> is below \<open>len(pattern)\<close>.\<close>

fun match_loop :: "bytes \<Rightarrow> int \<Rightarrow> int \<Rightarrow> bytes \<Rightarrow> bool option" where
  "match_loop d i j [] = Some True"
| "match_loop d i j (p # ps) =
     (case index d (i + j) of
        None \<Rightarrow> None
      | Some x \<Rightarrow> if x \<noteq> p then Some False else match_loop d i (j + 1) ps)"

function Find_forward :: "bytes \<Rightarrow> bytes \<Rightarrow> int \<Rightarrow> int option" where
  "Find_forward d pattern i =
     (if i \<le> len d - len pattern
      then (case match_loop d i 0 pattern of
              None \<Rightarrow> None
            | Some match \<Rightarrow> if match then Some i else Find_forward d pattern (i + 1))
      else Some (- 1))"
  by pat_completeness auto
termination
  by (relation "measure (\<lambda>(d, pattern, i). nat (len d - len pattern - i + 1))") auto

function Find_backward :: "bytes \<Rightarrow> bytes \<Rightarrow> int \<Rightarrow> int option" where
  "Find_backward d pattern i =
     (if i \<ge> 0
      then (case match_loop d i 0 pattern of
              None \<Rightarrow> None
            | Some match \<Rightarrow> if match then Some i else Find_backward d pattern (i - 1))
      else Some (- 1))"
  by pat_completeness auto
termination
  by (relation "measure (\<lambda>(d, pattern, i). nat (i + 1))") auto

definition Find :: "Buffer \<Rightarrow> bytes \<Rightarrow> int \<Rightarrow> bool \<Rightarrow> int option" where
  "Find b pattern startOffset forward =
     (if length pattern = 0 \<or> length (data b) = 0 then Some (- 1)
      else if forward then Find_forward (data b) pattern startOffset
      else
        let start = wrap64 (startOffset - 1);
            start = (if start > len (data b) - len pattern
                     then len (data b) - len pattern else start)
        in Find_backward (data b) pattern start)"

function CountMatches_loop :: "bytes \<Rightarrow> bytes \<Rightarrow> int \<Rightarrow> int \<Rightarrow> int option" where
  "CountMatches_loop d pattern i count =
     (if i \<le> len d - len pattern
      then (case match_loop d i 0 pattern of
              None \<Rightarrow> None
            | Some match \<Rightarrow>
                CountMatches_loop d pattern (i + 1) (if match then count + 1 else count))
      else Some count)"
  by pat_completeness auto
termination
  by (relation "measure (\<lambda>(d, pattern, i, count). nat (len d - len pattern - i + 1))") auto

definition CountMatches :: "Buffer \<Rightarrow> bytes \<Rightarrow> int option" where
  "CountMatches b pattern =
     (if length pattern = 0 \<or> length (data b) = 0 then Some 0
      else CountMatches_loop (data b) pattern 0 0)"

section \<open>Persistence\<close>

text \<open>
  The file system and the hash function belong to the Go standard library. A file system
  is the content of every existing file together with the faults the operating system answers
  with: \<open>open_fault\<close> for \<open>os.Open\<close>, \<open>read_fault\<close> for \<open>io.ReadAll\<close>, \<open>write_fault\<close> for
  \<open>os.WriteFile\<close>. The function \<open>sha256.Sum256\<close> is a parameter \<open>sum256\<close> of the operations that
  call it; \<open>hex.EncodeToString\<close> is written out.
\<close>

datatype error = Errorf string | IOError string

record filesystem =
  files :: "string \<rightharpoonup> bytes"
  open_fault :: "string \<rightharpoonup> string"
  read_fault :: "string \<rightharpoonup> string"
  write_fault :: "string \<rightharpoonup> string"

definition os_Open :: "filesystem \<Rightarrow> string \<Rightarrow> error + string" where
  "os_Open fs name =
     (case open_fault fs name of
        Some msg \<Rightarrow> Inl (IOError msg)
      | None \<Rightarrow> (case files fs name of
                  None \<Rightarrow> Inl (IOError ''no such file or directory'')
                | Some d \<Rightarrow> Inr name))"

definition io_ReadAll :: "filesystem \<Rightarrow> string \<Rightarrow> error + bytes" where
  "io_ReadAll fs f =
     (case read_fault fs f of
        Some msg \<Rightarrow> Inl (IOError msg)
      | None \<Rightarrow> (case files fs f of
                  None \<Rightarrow> Inl (IOError ''file already closed'')
                | Some d \<Rightarrow> Inr d))"

definition os_WriteFile :: "filesystem \<Rightarrow> string \<Rightarrow> bytes \<Rightarrow> filesystem \<times> error option" where
  "os_WriteFile fs name d =
     (case write_fault fs name of
        Some msg \<Rightarrow> (fs, Some (IOError msg))
      | None \<Rightarrow> (fs\<lparr>files := (files fs)(name \<mapsto> d)\<rparr>, None))"

definition hexdigit :: "byte \<Rightarrow> char" where
  "hexdigit n = ''0123456789abcdef'' ! unat n"

definition hex_EncodeToString :: "bytes \<Rightarrow> string" where
  "hex_EncodeToString src = concat (map (\<lambda>v. [hexdigit (drop_bit 4 v), hexdigit (and v 15)]) src)"

definition Open :: "(bytes \<Rightarrow> bytes) \<Rightarrow> filesystem \<Rightarrow> string \<Rightarrow> error + Buffer" where
  "Open sum256 fs name =
     (case os_Open fs name of
        Inl err \<Rightarrow> Inl err
      | Inr f \<Rightarrow>
          (case io_ReadAll fs f of
             Inl err \<Rightarrow> Inl err
           | Inr d \<Rightarrow>
               let hash = sum256 d
               in Inr \<lparr>filename = name, data = d, originalHash = hex_EncodeToString hash,
                       modified = False, undoStack = [], redoStack = [], isNew = False\<rparr>))"

definition HasChangedOnDisk ::
  "(bytes \<Rightarrow> bytes) \<Rightarrow> filesystem \<Rightarrow> Buffer \<Rightarrow> bool \<times> error option" where
  "HasChangedOnDisk sum256 fs b =
     (if isNew b \<or> filename b = '''' then (False, None)
      else
        (case os_Open fs (filename b) of
           Inl err \<Rightarrow> (False, Some err)
         | Inr f \<Rightarrow>
             (case io_ReadAll fs f of
                Inl err \<Rightarrow> (False, Some err)
              | Inr d \<Rightarrow>
                  let hash = sum256 d;
                      currentHash = hex_EncodeToString hash
                  in (currentHash \<noteq> originalHash b, None))))"

definition Save ::
  "(bytes \<Rightarrow> bytes) \<Rightarrow> filesystem \<Rightarrow> Buffer \<Rightarrow> filesystem \<times> Buffer \<times> error option" where
  "Save sum256 fs b =
     (if filename b = '''' then (fs, b, Some (Errorf ''no filename set''))
      else
        (case os_WriteFile fs (filename b) (data b) of
           (fs, Some err) \<Rightarrow> (fs, b, Some err)
         | (fs, None) \<Rightarrow>
             let hash = sum256 (data b)
             in (fs, b\<lparr>originalHash := hex_EncodeToString hash, modified := False,
                       undoStack := [], redoStack := [], isNew := False\<rparr>, None)))"

definition SaveAs ::
  "(bytes \<Rightarrow> bytes) \<Rightarrow> filesystem \<Rightarrow> Buffer \<Rightarrow> string \<Rightarrow> filesystem \<times> Buffer \<times> error option" where
  "SaveAs sum256 fs b name = Save sum256 fs (b\<lparr>filename := name\<rparr>)"

section \<open>Specification-level notions\<close>

text \<open>
  What an operation of the log means, in the words of the specification: applying it
  (Insert splices \<open>newData\<close> in at \<open>offset\<close>, Delete removes the span of \<open>oldData\<close>, Replace
  overwrites the byte at \<open>offset\<close>) and reverse-applying it (Insert removes \<open>newData\<close> at
  \<open>offset\<close>, Delete reinserts \<open>oldData\<close> at \<open>offset\<close>, Replace restores the \<open>oldData\<close> byte at
  \<open>offset\<close>).
\<close>

definition forward_apply :: "Operation \<Rightarrow> bytes \<Rightarrow> bytes" where
  "forward_apply op d =
     (let k = nat (Offset op) in
      case Type op of
        OpInsert \<Rightarrow> take k d @ NewData op @ drop k d
      | OpDelete \<Rightarrow> take k d @ drop (k + length (OldData op)) d
      | OpReplace \<Rightarrow> d[k := hd (NewData op)])"

definition reverse_apply :: "Operation \<Rightarrow> bytes \<Rightarrow> bytes" where
  "reverse_apply op d =
     (let k = nat (Offset op) in
      case Type op of
        OpInsert \<Rightarrow> take k d @ drop (k + length (NewData op)) d
      | OpDelete \<Rightarrow> take k d @ OldData op @ drop k d
      | OpReplace \<Rightarrow> d[k := hd (OldData op)])"

text \<open>\<open>recorded op p\<close>: the operation is the record of an edit of the content \<open>p\<close>.\<close>

definition recorded :: "Operation \<Rightarrow> bytes \<Rightarrow> bool" where
  "recorded op p =
     (0 \<le> Offset op \<and>
      (case Type op of
         OpInsert \<Rightarrow> Offset op \<le> len p
       | OpDelete \<Rightarrow> Offset op + len (OldData op) \<le> len p \<and>
                     take (length (OldData op)) (drop (nat (Offset op)) p) = OldData op
       | OpReplace \<Rightarrow> Offset op < len p \<and> OldData op = [p ! nat (Offset op)] \<and>
                      length (NewData op) = 1))"

text \<open>
  The undo stack, read from its top, against the contents each of its operations was
  applied to; and the redo stack, read from its top, against the contents its operations
  lead to.
\<close>

fun undo_chain :: "bytes \<Rightarrow> Operation list \<Rightarrow> bytes list \<Rightarrow> bool" where
  "undo_chain d [] [] = True"
| "undo_chain d (op # ops) (p # ps) =
     (recorded op p \<and> d = forward_apply op p \<and> length p < 2 ^ 63 \<and> undo_chain p ops ps)"
| "undo_chain d _ _ = False"

fun redo_chain :: "bytes \<Rightarrow> Operation list \<Rightarrow> bool" where
  "redo_chain d [] = True"
| "redo_chain d (op # ops) =
     (recorded op d \<and> length (forward_apply op d) < 2 ^ 63 \<and>
      redo_chain (forward_apply op d) ops)"

definition history_inv :: "Buffer \<Rightarrow> bytes list \<Rightarrow> bool" where
  "history_inv b h =
     (length (data b) < 2 ^ 63 \<and>
      undo_chain (data b) (rev (undoStack b)) (rev h) \<and>
      redo_chain (data b) (rev (redoStack b)))"

text \<open>
  The states a buffer reaches through its operations, from \<open>New\<close> or \<open>Open\<close>. Two
  history variables go with the state: \<open>h\<close> holds, for every operation on the undo stack
  (in the order of the stack), the content that held immediately before the operation was
  applied; \<open>s\<close> is the content at the last successful \<open>Open\<close> or \<open>Save\<close>, if there was one.
  Arguments are values of their Go types: offsets and counts are \<open>int64\<close>/\<open>int\<close>, and a byte
  slice has an \<open>int\<close> length. \<open>ReplaceBytes\<close> is a sequence of \<open>Replace\<close> and \<open>Insert\<close> calls.
\<close>

inductive reach :: "(bytes \<Rightarrow> bytes) \<Rightarrow> Buffer \<Rightarrow> bytes list \<Rightarrow> bytes option \<Rightarrow> bool"
  for sum256 :: "bytes \<Rightarrow> bytes" where
  reach_New: "reach sum256 New [] None"
| reach_Open:
    "Open sum256 fs name = Inr b \<Longrightarrow> length (data b) < 2 ^ 63 \<Longrightarrow>
     reach sum256 b [] (Some (data b))"
| reach_Insert:
    "reach sum256 b h s \<Longrightarrow> length ds < 2 ^ 63 \<Longrightarrow> Insert b offset ds = Some b' \<Longrightarrow>
     reach sum256 b' (h @ [data b]) s"
| reach_Delete:
    "reach sum256 b h s \<Longrightarrow> is_int64 offset \<Longrightarrow> is_int64 count \<Longrightarrow>
     Delete b offset count = Some b' \<Longrightarrow>
     reach sum256 b' (if undoStack b' = undoStack b then h else h @ [data b]) s"
| reach_Replace:
    "reach sum256 b h s \<Longrightarrow> Replace b offset newByte = Some b' \<Longrightarrow>
     reach sum256 b' (if undoStack b' = undoStack b then h else h @ [data b]) s"
| reach_Undo:
    "reach sum256 b h s \<Longrightarrow> Undo b = Some (b', r) \<Longrightarrow>
     reach sum256 b' (if r then butlast h else h) s"
| reach_Redo:
    "reach sum256 b h s \<Longrightarrow> Redo b = Some (b', r) \<Longrightarrow>
     reach sum256 b' (if r then h @ [data b] else h) s"
| reach_SetFilename:
    "reach sum256 b h s \<Longrightarrow> reach sum256 (SetFilename b name) h s"
| reach_Save:
    "reach sum256 b h s \<Longrightarrow> Save sum256 fs b = (fs', b', err) \<Longrightarrow>
     reach sum256 b' (if err = None then [] else h) (if err = None then Some (data b) else s)"
| reach_SaveAs:
    "reach sum256 b h s \<Longrightarrow> SaveAs sum256 fs b name = (fs', b', err) \<Longrightarrow>
     reach sum256 b' (if err = None then [] else h) (if err = None then Some (data b) else s)"

text \<open>Re-reading a file: \<open>os.Open\<close> followed by \<open>io.ReadAll\<close>.\<close>

definition reread :: "filesystem \<Rightarrow> string \<Rightarrow> error + bytes" where
  "reread fs name = (case os_Open fs name of Inl err \<Rightarrow> Inl err | Inr f \<Rightarrow> io_ReadAll fs f)"

text \<open>A pattern occurs at position \<open>i\<close> of a content: all of it, byte for byte.\<close>

definition matches_at :: "bytes \<Rightarrow> bytes \<Rightarrow> int \<Rightarrow> bool" where
  "matches_at d pattern i =
     (0 \<le> i \<and> i + len pattern \<le> len d \<and>
      take (length pattern) (drop (nat i) d) = pattern)"

text \<open>
  The operations \<open>ReplaceBytes\<close> logs on a content \<open>d\<close>, in the words of the specification:
  one Replace per position below the size, then one single-byte Insert at the current end for
  every further byte.
\<close>

definition ReplaceBytes_log :: "bytes \<Rightarrow> int \<Rightarrow> bytes \<Rightarrow> Operation list" where
  "ReplaceBytes_log d offset ds =
     (let k = min (length ds) (length d - nat offset) in
      map (\<lambda>i. \<lparr>Type = OpReplace, Offset = offset + int i,
                 OldData = [d ! (nat offset + i)], NewData = [ds ! i]\<rparr>) [0..<k] @
      map (\<lambda>i. \<lparr>Type = OpInsert, Offset = len d + int (i - k),
                 OldData = [], NewData = [ds ! i]\<rparr>) [k..<length ds])"

section \<open>Facts about the runtime primitives\<close>

lemma wrap64_id: "- (2 ^ 63) \<le> x \<Longrightarrow> x < 2 ^ 63 \<Longrightarrow> wrap64 x = x"
  by (simp add: wrap64_def)

lemma wrap64_range: "is_int64 (wrap64 x)"
  by (simp add: is_int64_def wrap64_def)

lemma wrap64_over: "2 ^ 63 \<le> x \<Longrightarrow> x < 2 ^ 64 \<Longrightarrow> wrap64 x = x - 2 ^ 64"
proof -
  assume a: "2 ^ 63 \<le> x" "x < 2 ^ 64"
  have "x + 2 ^ 63 = x - 2 ^ 63 + 2 ^ 64" by simp
  then have "(x + 2 ^ 63) mod 2 ^ 64 = (x - 2 ^ 63 + 2 ^ 64) mod 2 ^ 64" by (simp only:)
  also have "\<dots> = (x - 2 ^ 63) mod 2 ^ 64" by (simp only: mod_add_self2)
  also have "\<dots> = x - 2 ^ 63" using a by simp
  finally show ?thesis by (simp add: wrap64_def)
qed

lemma makeslice_Some: "0 \<le> n \<Longrightarrow> makeslice n = Some (replicate (nat n) 0)"
  by (simp add: makeslice_def)

lemma slice_prefix: "0 \<le> k \<Longrightarrow> k \<le> len s \<Longrightarrow> slice s 0 k = Some (take (nat k) s)"
  by (simp add: slice_def)

lemma slice_suffix: "0 \<le> k \<Longrightarrow> k \<le> len s \<Longrightarrow> slice s k (len s) = Some (drop (nat k) s)"
  by (simp add: slice_def)

lemma copy_replicate:
  "length s \<le> n \<Longrightarrow> copy (replicate n z) s = s @ replicate (n - length s) z"
  by (simp add: copy_def)

lemma copy_exact: "length dst = length s \<Longrightarrow> copy dst s = s"
  by (simp add: copy_def)

lemma copy_from_Some:
  "0 \<le> lo \<Longrightarrow> nat lo + length src \<le> length dst \<Longrightarrow>
   copy_from dst lo src = Some (take (nat lo) dst @ src @ drop (nat lo + length src) dst)"
  by (simp add: copy_from_def copy_def add.commute)

text \<open>The three copies of a splice: prefix, inserted bytes, suffix.\<close>

lemma splice_copies:
  assumes k: "0 \<le> k" "k \<le> len d" and n: "n = length d + length ds"
  shows "do {
           s \<leftarrow> slice d 0 k;
           let newData = copy (replicate n (0::byte)) s;
           newData \<leftarrow> copy_from newData k ds;
           s \<leftarrow> slice d k (len d);
           newData \<leftarrow> copy_from newData (k + len ds) s;
           f newData
         } = f (take (nat k) d @ ds @ drop (nat k) d)"
proof -
  define m where "m = nat k"
  have m: "m \<le> length d" "k = int m" using k by (simp_all add: m_def)
  have 1: "slice d 0 k = Some (take m d)" using k by (simp add: slice_prefix m_def)
  have 2: "copy (replicate n (0::byte)) (take m d) = take m d @ replicate (n - m) 0"
    using m n by (simp add: copy_replicate)
  have 3: "copy_from (take m d @ replicate (n - m) 0) k ds =
             Some (take m d @ ds @ replicate (length d - m) 0)"
    using m n by (simp add: copy_from_Some)
  have 4: "slice d k (len d) = Some (drop m d)" using k by (simp add: slice_suffix m_def)
  have 5: "copy_from (take m d @ ds @ replicate (length d - m) 0) (k + len ds) (drop m d) =
             Some (take m d @ ds @ drop m d)"
    using m n by (simp add: copy_from_Some nat_add_distrib)
  show ?thesis by (simp add: 1 2 3 4 5 m_def[symmetric])
qed

lemma Insert_eq:
  assumes "len (data b) + len ds < 2 ^ 63"
  shows "Insert b offset ds =
    Some (b\<lparr>undoStack := undoStack b @
                [\<lparr>Type = OpInsert, Offset = min (max offset 0) (len (data b)), OldData = [], NewData = ds\<rparr>],
             redoStack := [],
             data := take (nat offset) (data b) @ ds @ drop (nat offset) (data b),
             modified := True\<rparr>)"
proof -
  define k where "k = min (max offset 0) (len (data b))"
  have clamp: "(if (if offset < 0 then 0 else offset) > len (data b) then len (data b)
                else (if offset < 0 then 0 else offset)) = k"
    by (simp add: k_def min_def max_def)
  have k: "0 \<le> k" "k \<le> len (data b)" by (simp_all add: k_def)
  have w1: "wrap64 (len (data b) + len ds) = len (data b) + len ds"
    using assms by (intro wrap64_id) simp_all
  have w2: "wrap64 (k + len ds) = k + len ds"
    using assms k by (intro wrap64_id) simp_all
  have tk: "take (nat offset) (data b) = take (nat k) (data b)"
           "drop (nat offset) (data b) = drop (nat k) (data b)"
    by (auto simp: k_def min_def max_def)
  note sp = splice_copies [OF k refl, of ds, unfolded Let_def]
  show ?thesis
    unfolding Insert_def Let_def clamp
    by (simp add: makeslice_Some copy_exact w1 w2 nat_add_distrib tk k_def[symmetric] sp)
qed

section \<open>Insert and GetBytes\<close>

lemma GetBytes_inserted:
  assumes k: "k \<le> length d" and bound: "len d + len ds < 2 ^ 63"
    and b': "data b' = take k d @ ds @ drop k d"
  shows "GetBytes b' (int k) (len ds) = Some ds"
proof (cases "int k \<ge> len (data b')")
  case True
  have "len (data b') = len d + len ds" using k b' by simp
  with True k have "length ds = 0" by linarith
  then have "ds = []" by simp
  with True show ?thesis by (simp add: GetBytes_def)
next
  case False
  have w: "wrap64 (int k + len ds) = int k + len ds"
    using k bound by (intro wrap64_id) simp_all
  have e: "\<not> int k + len ds > len (data b')" using k b' by simp
  have w': "wrap64 (len ds) = len ds"
    using bound by (intro wrap64_id) simp_all
  have s: "slice (data b') (int k) (int k + len ds) = Some ds"
    using k b' by (simp add: slice_def)
  from False show ?thesis
    by (simp add: GetBytes_def Let_def w e w' s makeslice_Some copy_exact)
qed

text \<open>
  C2. For every buffer, offset and byte sequence \<open>ds\<close> (the total size staying an \<open>int\<close>),
  \<open>Insert\<close> returns normally; the offset is clamped into \<open>[0, size]\<close>, so a valid offset is
  used as it is; the bytes are spliced in at the clamped offset, the size grows by
  \<open>len(ds)\<close>, and \<open>GetBytes\<close> at the clamped offset with count \<open>len(ds)\<close> returns \<open>ds\<close>.
\<close>

theorem Insert_then_GetBytes:
  assumes "len (data b) + len ds < 2 ^ 63"
  shows "let k = min (max offset 0) (Size b) in
         (0 \<le> offset \<and> offset \<le> Size b \<longrightarrow> k = offset) \<and>
         (\<exists>b'. Insert b offset ds = Some b' \<and>
               Size b' = Size b + len ds \<and>
               data b' = take (nat k) (data b) @ ds @ drop (nat k) (data b) \<and>
               GetBytes b' k (len ds) = Some ds)"
proof -
  define k where "k = nat (min (max offset 0) (Size b))"
  have ik: "min (max offset 0) (Size b) = int k" by (simp add: k_def Size_def)
  have kl: "k \<le> length (data b)" by (simp add: k_def Size_def)
  have tk: "take (nat offset) (data b) = take k (data b)"
           "drop (nat offset) (data b) = drop k (data b)"
    by (auto simp: k_def Size_def min_def max_def)
  define b' where "b' = b\<lparr>undoStack := undoStack b @
                [\<lparr>Type = OpInsert, Offset = min (max offset 0) (len (data b)),
                  OldData = [], NewData = ds\<rparr>],
             redoStack := [],
             data := take (nat offset) (data b) @ ds @ drop (nat offset) (data b),
             modified := True\<rparr>"
  have ins: "Insert b offset ds = Some b'"
    unfolding b'_def using assms by (rule Insert_eq)
  have d': "data b' = take k (data b) @ ds @ drop k (data b)"
    by (simp add: b'_def tk)
  have sz: "Size b' = Size b + len ds"
    using kl by (simp add: Size_def d')
  have gb: "GetBytes b' (int k) (len ds) = Some ds"
    using kl assms d' by (rule GetBytes_inserted)
  have valid: "0 \<le> offset \<and> offset \<le> Size b \<longrightarrow> int k = offset"
    by (simp add: k_def)
  show ?thesis
    unfolding Let_def ik using ins d' sz gb valid by simp
qed

theorem Insert_then_GetBytes_witness:
  "len (data (New\<lparr>data := [1, 2, 3]\<rparr>)) + len [9, 8 :: byte] < 2 ^ 63 \<and>
   (\<exists>b'. Insert (New\<lparr>data := [1, 2, 3]\<rparr>) 1 [9, 8] = Some b' \<and>
         Size b' = 5 \<and> data b' = [1, 9, 8, 2, 3] \<and> GetBytes b' 1 2 = Some [9, 8])"
  using Insert_then_GetBytes [of "New\<lparr>data := [1, 2, 3]\<rparr>" "[9, 8]" 1]
  by (simp add: New_def Size_def)

section \<open>Delete and Replace\<close>

lemma remove_copies:
  assumes k: "0 \<le> k" "0 \<le> c" "k + c \<le> len d" and n: "n = length d - nat c"
  shows "do {
           s \<leftarrow> slice d 0 k;
           let newData = copy (replicate n (0::byte)) s;
           s \<leftarrow> slice d (k + c) (len d);
           newData \<leftarrow> copy_from newData k s;
           f newData
         } = f (take (nat k) d @ drop (nat k + nat c) d)"
proof -
  define m where "m = nat k"
  define j where "j = nat c"
  have m: "m + j \<le> length d" "k = int m" "c = int j" using k by (simp_all add: m_def j_def)
  have 1: "slice d 0 k = Some (take m d)" using m by (simp add: slice_prefix)
  have 2: "copy (replicate n (0::byte)) (take m d) = take m d @ replicate (n - m) 0"
    using m n by (simp add: copy_replicate j_def[symmetric])
  have 3: "slice d (k + c) (len d) = Some (drop (m + j) d)"
    using m slice_suffix [of "k + c" d] by (simp add: nat_add_distrib)
  have 4: "copy_from (take m d @ replicate (n - m) 0) k (drop (m + j) d) =
             Some (take m d @ drop (m + j) d)"
    using m n by (simp add: copy_from_Some j_def[symmetric])
  show ?thesis by (simp add: 1 2 3 4 m_def[symmetric] j_def[symmetric])
qed

lemma Delete_eq:
  assumes "0 \<le> offset" "offset < len (data b)" "0 < count" "offset + count < 2 ^ 63"
  shows "Delete b offset count =
    Some (b\<lparr>undoStack := undoStack b @
                [\<lparr>Type = OpDelete, Offset = offset,
                  OldData = take (nat count) (drop (nat offset) (data b)), NewData = []\<rparr>],
             redoStack := [],
             data := take (nat offset) (data b) @ drop (nat offset + nat count) (data b),
             modified := True\<rparr>)"
proof -
  define c where "c = (if offset + count > len (data b) then len (data b) - offset else count)"
  have w: "wrap64 (offset + count) = offset + count"
    using assms by (intro wrap64_id) simp_all
  have c: "0 < c" "offset + c \<le> len (data b)" "c \<le> count" using assms by (auto simp: c_def)
  have wc: "wrap64 (offset + c) = offset + c"
    using assms c by (intro wrap64_id) simp_all
  have tk: "take (nat count) (drop (nat offset) (data b)) = take (nat c) (drop (nat offset) (data b))"
           "drop (nat offset + nat count) (data b) = drop (nat offset + nat c) (data b)"
    using assms by (auto simp: c_def)
  have s: "slice (data b) offset (offset + c) = Some (take (nat c) (drop (nat offset) (data b)))"
    using assms c by (simp add: slice_def)
  have cp: "copy (replicate (nat c) (0::byte)) (take (nat c) (drop (nat offset) (data b)))
             = take (nat c) (drop (nat offset) (data b))"
    using assms c by (intro copy_exact) simp
  have n: "nat (len (data b) - c) = length (data b) - nat c" using c assms by simp
  have k: "0 \<le> offset" "0 \<le> c" "offset + c \<le> len (data b)" using assms c by simp_all
  note rm = remove_copies [OF k refl, unfolded Let_def]
  have ms: "makeslice c = Some (replicate (nat c) 0)" "makeslice (len (data b) - c) = Some (replicate (length (data b) - nat c) 0)"
    using c assms n by (simp_all add: makeslice_def)
  show ?thesis
    using assms(1-3) unfolding Delete_def w c_def[symmetric] Let_def wc
    by (simp add: ms s cp rm tk)
qed

lemma Delete_noop:
  "offset < 0 \<or> offset \<ge> len (data b) \<or> count \<le> 0 \<Longrightarrow> Delete b offset count = Some b"
  by (simp add: Delete_def)

lemma Delete_overflow:
  assumes "0 \<le> offset" "offset < len (data b)" "0 < count" "offset < 2 ^ 63" "count < 2 ^ 63"
    "2 ^ 63 \<le> offset + count"
  shows "Delete b offset count = None"
proof -
  have w: "wrap64 (offset + count) = offset + count - 2 ^ 64"
    using assms by (intro wrap64_over) simp_all
  then have neg: "wrap64 (offset + count) < 0" using assms by simp
  then have s: "slice (data b) offset (wrap64 (offset + count)) = None"
    using assms by (simp add: slice_def)
  have c: "\<not> wrap64 (offset + count) > len (data b)" using neg by simp
  show ?thesis using assms(1-3) by (simp add: Delete_def c s makeslice_def)
qed

lemma Replace_eq:
  assumes "0 \<le> offset" "offset < len (data b)"
  shows "Replace b offset newByte =
    Some (b\<lparr>undoStack := undoStack b @
                [\<lparr>Type = OpReplace, Offset = offset,
                  OldData = [data b ! nat offset], NewData = [newByte]\<rparr>],
             redoStack := [],
             data := (data b)[nat offset := newByte],
             modified := True\<rparr>)"
  using assms by (simp add: Replace_def index_def store_def)

lemma Replace_noop:
  "offset < 0 \<or> offset \<ge> len (data b) \<Longrightarrow> Replace b offset newByte = Some b"
  by (simp add: Replace_def)

section \<open>Undo and Redo of a recorded operation\<close>

lemma reverse_forward:
  "recorded op p \<Longrightarrow> reverse_apply op (forward_apply op p) = p"
  apply (cases "Type op")
  apply (auto simp: recorded_def reverse_apply_def forward_apply_def Let_def)
  subgoal
    by (metis append_take_drop_id drop_drop add.commute)
  done

lemma Undo_step:
  assumes ne: "undoStack b \<noteq> []" and op: "op = last (undoStack b)"
    and rec: "recorded op p" and d: "data b = forward_apply op p"
    and bp: "length p < 2 ^ 63" and bd: "length (data b) < 2 ^ 63"
  shows "Undo b = Some (b\<lparr>undoStack := butlast (undoStack b), data := p,
                          redoStack := redoStack b @ [op],
                          modified := (butlast (undoStack b) \<noteq> [])\<rparr>, True)"
proof (cases "Type op")
  case OpInsert
  define k where "k = Offset op"
  define c where "c = len (NewData op)"
  have k: "0 \<le> k" "k \<le> len p" using rec OpInsert by (simp_all add: recorded_def k_def)
  have dd: "data b = take (nat k) p @ NewData op @ drop (nat k) p"
    using d OpInsert by (simp add: forward_apply_def Let_def k_def)
  have ld: "len (data b) = len p + c" using k by (simp add: dd c_def)
  have w: "wrap64 (k + c) = k + c" using k bd ld by (intro wrap64_id) (simp_all add: c_def)
  have kc: "0 \<le> k" "0 \<le> c" "k + c \<le> len (data b)" using k ld by (simp_all add: c_def)
  have n: "nat (len (data b) - c) = length (data b) - nat c" using ld by (simp add: c_def)
  note rm = remove_copies [OF kc refl, unfolded Let_def]
  have ms: "makeslice (len (data b) - c) = Some (replicate (length (data b) - nat c) 0)"
    unfolding n [symmetric] by (rule makeslice_Some) (use kc in simp)
  have res: "take (nat k) (data b) @ drop (nat k + nat c) (data b) = p"
    using k by (simp add: dd c_def)
  show ?thesis
    using ne OpInsert unfolding Undo_def Let_def op[symmetric] k_def[symmetric] c_def[symmetric]
    by (simp add: ms w rm res)
next
  case OpDelete
  define k where "k = Offset op"
  have k: "0 \<le> k" "k + len (OldData op) \<le> len p"
          "take (length (OldData op)) (drop (nat k) p) = OldData op"
    using rec OpDelete by (simp_all add: recorded_def k_def)
  have dd: "data b = take (nat k) p @ drop (nat k + length (OldData op)) p"
    using d OpDelete by (simp add: forward_apply_def Let_def k_def)
  have ld: "len (data b) + len (OldData op) = len p" using k(1,2) by (simp add: dd)
  have kd: "0 \<le> k" "k \<le> len (data b)" using k(1,2) ld by simp_all
  have w1: "wrap64 (len (data b) + len (OldData op)) = len (data b) + len (OldData op)"
    using bp ld by (intro wrap64_id) simp_all
  have w2: "wrap64 (k + len (OldData op)) = k + len (OldData op)"
    using bp k by (intro wrap64_id) simp_all
  note sp = splice_copies [OF kd refl, of "OldData op", unfolded Let_def]
  have "take (nat k) p @ take (length (OldData op)) (drop (nat k) p) @
        drop (nat k + length (OldData op)) p = p"
    by (metis append_take_drop_id drop_drop add.commute)
  then have "take (nat k) p @ OldData op @ drop (nat k + length (OldData op)) p = p"
    by (simp only: k(3))
  then have res: "take (nat k) (data b) @ OldData op @ drop (nat k) (data b) = p"
    using k(1,2) by (simp add: dd)
  show ?thesis
    using ne OpDelete unfolding Undo_def Let_def op[symmetric] k_def[symmetric]
    by (simp add: makeslice_Some w1 w2 nat_add_distrib sp res)
next
  case OpReplace
  define k where "k = Offset op"
  have k: "0 \<le> k" "k < len p" "OldData op = [p ! nat k]"
    using rec OpReplace by (simp_all add: recorded_def k_def)
  have dd: "data b = p[nat k := hd (NewData op)]"
    using d OpReplace by (simp add: forward_apply_def Let_def k_def)
  show ?thesis
    using ne OpReplace k unfolding Undo_def Let_def op[symmetric] k_def[symmetric]
    by (simp add: index_def store_def dd)
qed

lemma Redo_step:
  assumes ne: "redoStack b \<noteq> []" and op: "op = last (redoStack b)"
    and rec: "recorded op (data b)"
    and bd: "length (data b) < 2 ^ 63" and bf: "length (forward_apply op (data b)) < 2 ^ 63"
  shows "Redo b = Some (b\<lparr>redoStack := butlast (redoStack b),
                          data := forward_apply op (data b),
                          undoStack := undoStack b @ [op], modified := True\<rparr>, True)"
proof (cases "Type op")
  case OpInsert
  define k where "k = Offset op"
  have k: "0 \<le> k" "k \<le> len (data b)" using rec OpInsert by (simp_all add: recorded_def k_def)
  have fa: "forward_apply op (data b) = take (nat k) (data b) @ NewData op @ drop (nat k) (data b)"
    using OpInsert by (simp add: forward_apply_def Let_def k_def)
  have lf: "len (forward_apply op (data b)) = len (data b) + len (NewData op)"
    using k by (simp add: fa)
  have w1: "wrap64 (len (data b) + len (NewData op)) = len (data b) + len (NewData op)"
    using bf lf by (intro wrap64_id) simp_all
  have w2: "wrap64 (k + len (NewData op)) = k + len (NewData op)"
    using bf lf k by (intro wrap64_id) simp_all
  note sp = splice_copies [OF k refl, of "NewData op", unfolded Let_def]
  show ?thesis
    using ne OpInsert unfolding Redo_def Let_def op[symmetric] k_def[symmetric]
    by (simp add: makeslice_Some w1 w2 nat_add_distrib sp fa)
next
  case OpDelete
  define k where "k = Offset op"
  define c where "c = len (OldData op)"
  have kc: "0 \<le> k" "0 \<le> c" "k + c \<le> len (data b)"
    using rec OpDelete by (simp_all add: recorded_def k_def c_def)
  have fa: "forward_apply op (data b) = take (nat k) (data b) @ drop (nat k + nat c) (data b)"
    using OpDelete by (simp add: forward_apply_def Let_def k_def c_def)
  have w: "wrap64 (k + c) = k + c" using kc bd by (intro wrap64_id) simp_all
  have n: "nat (len (data b) - c) = length (data b) - nat c" using kc by simp
  have ms: "makeslice (len (data b) - c) = Some (replicate (length (data b) - nat c) 0)"
    unfolding n [symmetric] by (rule makeslice_Some) (use kc in simp)
  note rm = remove_copies [OF kc refl, unfolded Let_def]
  show ?thesis
    using ne OpDelete unfolding Redo_def Let_def op[symmetric] k_def[symmetric] c_def[symmetric]
    by (simp add: ms w rm fa)
next
  case OpReplace
  define k where "k = Offset op"
  have k: "0 \<le> k" "k < len (data b)" "length (NewData op) = 1"
    using rec OpReplace by (simp_all add: recorded_def k_def)
  have fa: "forward_apply op (data b) = (data b)[nat k := hd (NewData op)]"
    using OpReplace by (simp add: forward_apply_def Let_def k_def)
  have hd: "NewData op ! 0 = hd (NewData op)" using k(3) by (cases "NewData op") simp_all
  show ?thesis
    using ne OpReplace k unfolding Redo_def Let_def op[symmetric] k_def[symmetric]
    by (simp add: index_def store_def fa hd)
qed

section \<open>The history invariant of reachable states\<close>

lemma rev_last_butlast: "xs \<noteq> [] \<Longrightarrow> rev xs = last xs # rev (butlast xs)"
  by (induction xs rule: rev_induct) simp_all

lemma undo_chain_length: "undo_chain d ops ps \<Longrightarrow> length ps = length ops"
  by (induction d ops ps rule: undo_chain.induct) simp_all

lemma Insert_overflow:
  assumes "length (data b) < 2 ^ 63" "length ds < 2 ^ 63" "2 ^ 63 \<le> len (data b) + len ds"
  shows "Insert b offset ds = None"
proof -
  have "wrap64 (len (data b) + len ds) = len (data b) + len ds - 2 ^ 64"
    using assms by (intro wrap64_over) simp_all
  then have "wrap64 (len (data b) + len ds) < 0" using assms by simp
  then have "makeslice (wrap64 (len (data b) + len ds)) = None" by (simp add: makeslice_def)
  then show ?thesis by (simp add: Insert_def Let_def makeslice_Some)
qed

lemma history_inv_Insert:
  assumes inv: "history_inv b h" and ds: "length ds < 2 ^ 63"
    and ins: "Insert b offset ds = Some b'"
  shows "history_inv b' (h @ [data b])"
proof -
  have bd: "length (data b) < 2 ^ 63" using inv by (simp add: history_inv_def)
  have fit: "len (data b) + len ds < 2 ^ 63"
  proof (rule ccontr)
    assume "\<not> ?thesis"
    then have "Insert b offset ds = None" using bd ds by (intro Insert_overflow) simp_all
    with ins show False by simp
  qed
  define op where "op = \<lparr>Type = OpInsert, Offset = min (max offset 0) (len (data b)),
                          OldData = [], NewData = ds\<rparr>"
  have b': "b' = b\<lparr>undoStack := undoStack b @ [op], redoStack := [],
                   data := take (nat offset) (data b) @ ds @ drop (nat offset) (data b),
                   modified := True\<rparr>"
    using ins Insert_eq [OF fit, of offset] by (simp add: op_def)
  have rec: "recorded op (data b)" by (simp add: recorded_def op_def)
  have fa: "data b' = forward_apply op (data b)"
    by (auto simp: b' forward_apply_def op_def Let_def min_def max_def)
  have lb': "length (data b') < 2 ^ 63" using fit by (simp add: b')
  have uc: "undo_chain (data b) (rev (undoStack b)) (rev h)"
    using inv by (simp add: history_inv_def)
  have st: "undoStack b' = undoStack b @ [op]" "redoStack b' = []" by (simp_all add: b')
  show ?thesis
    unfolding history_inv_def using lb' rec fa bd uc by (simp add: st)
qed

lemma history_inv_Delete:
  assumes inv: "history_inv b h" and io: "is_int64 offset" and ic: "is_int64 count"
    and del: "Delete b offset count = Some b'"
  shows "history_inv b' (if undoStack b' = undoStack b then h else h @ [data b])"
proof (cases "offset < 0 \<or> offset \<ge> len (data b) \<or> count \<le> 0")
  case True
  then have "b' = b" using del by (simp add: Delete_def)
  then show ?thesis using inv by simp
next
  case False
  then have r: "0 \<le> offset" "offset < len (data b)" "0 < count" by simp_all
  have fit: "offset + count < 2 ^ 63"
  proof (rule ccontr)
    assume "\<not> ?thesis"
    then have "Delete b offset count = None"
      using r io ic by (intro Delete_overflow) (simp_all add: is_int64_def)
    with del show False by simp
  qed
  define op where "op = \<lparr>Type = OpDelete, Offset = offset,
                  OldData = take (nat count) (drop (nat offset) (data b)), NewData = []\<rparr>"
  have b': "b' = b\<lparr>undoStack := undoStack b @ [op], redoStack := [],
             data := take (nat offset) (data b) @ drop (nat offset + nat count) (data b),
             modified := True\<rparr>"
    using del Delete_eq [OF r fit] by (simp add: op_def)
  have rec: "recorded op (data b)" using r by (auto simp: recorded_def op_def min_def)
  have "drop (nat offset + nat count) (data b) =
        drop (nat offset + min (length (data b) - nat offset) (nat count)) (data b)"
    using r by (simp add: min_def)
  then have fa: "data b' = forward_apply op (data b)"
    by (simp add: b' forward_apply_def op_def Let_def)
  have bd: "length (data b) < 2 ^ 63" using inv by (simp add: history_inv_def)
  have lb': "length (data b') < 2 ^ 63" using bd r by (simp add: b')
  have uc: "undo_chain (data b) (rev (undoStack b)) (rev h)"
    using inv by (simp add: history_inv_def)
  have st: "undoStack b' = undoStack b @ [op]" "redoStack b' = []" by (simp_all add: b')
  show ?thesis
    unfolding history_inv_def using lb' rec fa bd uc by (simp add: st)
qed

lemma history_inv_Replace:
  assumes inv: "history_inv b h" and rep: "Replace b offset newByte = Some b'"
  shows "history_inv b' (if undoStack b' = undoStack b then h else h @ [data b])"
proof (cases "offset < 0 \<or> offset \<ge> len (data b)")
  case True
  then have "b' = b" using rep by (simp add: Replace_def)
  then show ?thesis using inv by simp
next
  case False
  then have r: "0 \<le> offset" "offset < len (data b)" by simp_all
  define op where "op = \<lparr>Type = OpReplace, Offset = offset,
                  OldData = [data b ! nat offset], NewData = [newByte]\<rparr>"
  have b': "b' = b\<lparr>undoStack := undoStack b @ [op], redoStack := [],
             data := (data b)[nat offset := newByte], modified := True\<rparr>"
    using rep Replace_eq [OF r] by (simp add: op_def)
  have rec: "recorded op (data b)" using r by (simp add: recorded_def op_def)
  have fa: "data b' = forward_apply op (data b)"
    by (simp add: b' forward_apply_def op_def Let_def)
  have bd: "length (data b) < 2 ^ 63" using inv by (simp add: history_inv_def)
  have lb': "length (data b') < 2 ^ 63" using bd by (simp add: b')
  have uc: "undo_chain (data b) (rev (undoStack b)) (rev h)"
    using inv by (simp add: history_inv_def)
  have st: "undoStack b' = undoStack b @ [op]" "redoStack b' = []" by (simp_all add: b')
  show ?thesis
    unfolding history_inv_def using lb' rec fa bd uc by (simp add: st)
qed

text \<open>With the invariant, \<open>Undo\<close> on a non-empty undo stack returns the recorded prior content.\<close>

lemma Undo_history_inv:
  assumes inv: "history_inv b h" and ne: "undoStack b \<noteq> []"
  shows "h \<noteq> [] \<and> length h = length (undoStack b) \<and>
         Undo b = Some (b\<lparr>undoStack := butlast (undoStack b), data := last h,
                          redoStack := redoStack b @ [last (undoStack b)],
                          modified := (butlast (undoStack b) \<noteq> [])\<rparr>, True) \<and>
         last h = reverse_apply (last (undoStack b)) (data b) \<and>
         history_inv (b\<lparr>undoStack := butlast (undoStack b), data := last h,
                          redoStack := redoStack b @ [last (undoStack b)],
                          modified := (butlast (undoStack b) \<noteq> [])\<rparr>) (butlast h)"
proof -
  define op where "op = last (undoStack b)"
  have us: "rev (undoStack b) = op # rev (butlast (undoStack b))"
    using ne by (simp add: op_def rev_last_butlast)
  have uc: "undo_chain (data b) (op # rev (butlast (undoStack b))) (rev h)"
    using inv us by (simp add: history_inv_def)
  then obtain p ps where hp: "rev h = p # ps" by (cases "rev h") simp_all
  then have hne: "h \<noteq> []" by auto
  have p: "p = last h" and ps: "ps = rev (butlast h)"
    using hp rev_last_butlast [OF hne] by simp_all
  have c: "recorded op p" "data b = forward_apply op p" "length p < 2 ^ 63"
          "undo_chain p (rev (butlast (undoStack b))) ps"
    using uc hp by simp_all
  have bd: "length (data b) < 2 ^ 63" using inv by (simp add: history_inv_def)
  have rc: "redo_chain (data b) (rev (redoStack b))" using inv by (simp add: history_inv_def)
  have step: "Undo b = Some (b\<lparr>undoStack := butlast (undoStack b), data := p,
                          redoStack := redoStack b @ [op],
                          modified := (butlast (undoStack b) \<noteq> [])\<rparr>, True)"
    using ne op_def c(1,2,3) bd by (rule Undo_step)
  have rv: "p = reverse_apply op (data b)"
    using c(1,2) by (simp add: reverse_forward)
  have ln: "length h = length (undoStack b)"
    using undo_chain_length [OF uc] ne by (cases "undoStack b") simp_all
  have inv': "history_inv (b\<lparr>undoStack := butlast (undoStack b), data := p,
                          redoStack := redoStack b @ [op],
                          modified := (butlast (undoStack b) \<noteq> [])\<rparr>) (butlast h)"
    unfolding history_inv_def using c bd rc by (simp add: ps)
  show ?thesis
    using hne ln step rv inv' unfolding p op_def by simp
qed


lemma history_inv_Redo:
  assumes inv: "history_inv b h" and ne: "redoStack b \<noteq> []"
  shows "Redo b = Some (b\<lparr>redoStack := butlast (redoStack b),
                          data := forward_apply (last (redoStack b)) (data b),
                          undoStack := undoStack b @ [last (redoStack b)],
                          modified := True\<rparr>, True) \<and>
         history_inv (b\<lparr>redoStack := butlast (redoStack b),
                          data := forward_apply (last (redoStack b)) (data b),
                          undoStack := undoStack b @ [last (redoStack b)],
                          modified := True\<rparr>) (h @ [data b])"
proof -
  define op where "op = last (redoStack b)"
  have rs: "rev (redoStack b) = op # rev (butlast (redoStack b))"
    using ne by (simp add: op_def rev_last_butlast)
  have c: "recorded op (data b)" "length (forward_apply op (data b)) < 2 ^ 63"
          "redo_chain (forward_apply op (data b)) (rev (butlast (redoStack b)))"
    using inv rs by (simp_all add: history_inv_def)
  have bd: "length (data b) < 2 ^ 63" using inv by (simp add: history_inv_def)
  have uc: "undo_chain (data b) (rev (undoStack b)) (rev h)"
    using inv by (simp add: history_inv_def)
  have step: "Redo b = Some (b\<lparr>redoStack := butlast (redoStack b),
                          data := forward_apply op (data b),
                          undoStack := undoStack b @ [op], modified := True\<rparr>, True)"
    using ne op_def c(1) bd c(2) by (rule Redo_step)
  have inv': "history_inv (b\<lparr>redoStack := butlast (redoStack b),
                          data := forward_apply op (data b),
                          undoStack := undoStack b @ [op], modified := True\<rparr>) (h @ [data b])"
    unfolding history_inv_def using c bd uc by simp
  show ?thesis using step inv' unfolding op_def by simp
qed

lemma Open_Inr:
  assumes "Open sum256 fs name = Inr b"
  shows "undoStack b = [] \<and> redoStack b = [] \<and>
         originalHash b = hex_EncodeToString (sum256 (data b)) \<and>
         reread fs name = Inr (data b) \<and> filename b = name \<and> \<not> isNew b \<and> \<not> modified b"
  using assms by (auto simp: Open_def reread_def Let_def split: sum.splits)

lemma Save_cases:
  "Save sum256 fs b = (fs', b', err) \<Longrightarrow>
   (err \<noteq> None \<and> b' = b) \<or>
   (err = None \<and> filename b \<noteq> [] \<and>
    b' = b\<lparr>originalHash := hex_EncodeToString (sum256 (data b)), modified := False,
            undoStack := [], redoStack := [], isNew := False\<rparr>)"
  by (auto simp: Save_def os_WriteFile_def Let_def split: if_splits option.splits)

lemma reach_history_inv: "reach sum256 b h s \<Longrightarrow> history_inv b h"
proof (induction rule: reach.induct)
  case reach_New
  show ?case by (simp add: history_inv_def New_def)
next
  case (reach_Open fs name b)
  then show ?case using Open_Inr [of sum256 fs name b] by (simp add: history_inv_def)
next
  case (reach_Insert b h s ds offset b')
  then show ?case by (intro history_inv_Insert)
next
  case (reach_Delete b h s offset count b')
  then show ?case by (intro history_inv_Delete)
next
  case (reach_Replace b h s offset newByte b')
  then show ?case by (intro history_inv_Replace)
next
  case (reach_Undo b h s b' r)
  show ?case
  proof (cases "undoStack b = []")
    case True
    with reach_Undo show ?thesis by (simp add: Undo_def)
  next
    case False
    from Undo_history_inv [OF reach_Undo.IH False] reach_Undo.hyps(2)
    show ?thesis by auto
  qed
next
  case (reach_Redo b h s b' r)
  show ?case
  proof (cases "redoStack b = []")
    case True
    with reach_Redo show ?thesis by (simp add: Redo_def)
  next
    case False
    from history_inv_Redo [OF reach_Redo.IH False] reach_Redo.hyps(2)
    show ?thesis by auto
  qed
next
  case (reach_SetFilename b h s name)
  then show ?case by (simp add: history_inv_def SetFilename_def)
next
  case (reach_Save b h s fs fs' b' err)
  from Save_cases [OF reach_Save.hyps(2)] reach_Save.IH
  show ?case by (auto simp: history_inv_def)
next
  case (reach_SaveAs b h s fs name fs' b' err)
  from reach_SaveAs.hyps(2) have "Save sum256 fs (b\<lparr>filename := name\<rparr>) = (fs', b', err)"
    by (simp add: SaveAs_def)
  from Save_cases [OF this] reach_SaveAs.IH
  show ?case by (auto simp: history_inv_def)
qed

section \<open>Undo restores the prior content\<close>

text \<open>\<open>ReplaceBytes\<close> stays within the reachable states: it only calls \<open>Replace\<close> and
  \<open>Insert\<close>.\<close>

lemma reach_ReplaceBytes_loop:
  "reach sum256 b h s \<Longrightarrow> ReplaceBytes_loop b offset i ds = Some b' \<Longrightarrow>
   \<exists>h'. reach sum256 b' h' s"
proof (induction ds arbitrary: b h i)
  case Nil
  then show ?case by auto
next
  case (Cons d ds)
  define pos where "pos = wrap64 (offset + i)"
  from Cons.prems(2) obtain b1 where
    b1: "(if pos \<ge> len (data b) then Insert b (len (data b)) [d] else Replace b pos d) = Some b1"
    and rest: "ReplaceBytes_loop b1 offset (i + 1) ds = Some b'"
    unfolding pos_def by (auto simp: Let_def split: bind_splits)
  have "\<exists>h1. reach sum256 b1 h1 s"
  proof (cases "pos \<ge> len (data b)")
    case True
    with b1 have "Insert b (len (data b)) [d] = Some b1" by simp
    from reach_Insert [OF Cons.prems(1) _ this] show ?thesis by auto
  next
    case False
    with b1 have "Replace b pos d = Some b1" by simp
    from reach_Replace [OF Cons.prems(1) this] show ?thesis by blast
  qed
  then obtain h1 where "reach sum256 b1 h1 s" ..
  from Cons.IH [OF this rest] show ?case .
qed

lemma reach_ReplaceBytes:
  "reach sum256 b h s \<Longrightarrow> ReplaceBytes b offset ds = Some b' \<Longrightarrow> \<exists>h'. reach sum256 b' h' s"
  unfolding ReplaceBytes_def by (rule reach_ReplaceBytes_loop)

text \<open>
  C1. In every reachable state with a non-empty undo stack, \<open>Undo\<close> returns true: it pops
  the top operation and reverse-applies it, the resulting content is the content that held
  immediately before that operation was applied (the last entry of the history \<open>h\<close>, which
  runs parallel to the undo stack), and the popped operation is pushed unchanged onto the
  redo stack.
\<close>

theorem Undo_restores_prior_content:
  assumes "reach sum256 b h s" and "undoStack b \<noteq> []"
  shows "\<exists>b'. Undo b = Some (b', True) \<and>
              length h = length (undoStack b) \<and>
              data b' = last h \<and>
              data b' = reverse_apply (last (undoStack b)) (data b) \<and>
              undoStack b' = butlast (undoStack b) \<and>
              redoStack b' = redoStack b @ [last (undoStack b)]"
proof -
  have "history_inv b h" using assms(1) by (rule reach_history_inv)
  from Undo_history_inv [OF this assms(2)] show ?thesis by auto
qed

theorem Undo_restores_prior_content_witness:
  "reach (\<lambda>d. d)
     \<lparr>filename = [], data = [2], originalHash = [], modified = True,
       undoStack = [\<lparr>Type = OpInsert, Offset = 0, OldData = [], NewData = [1, 2]\<rparr>,
                    \<lparr>Type = OpDelete, Offset = 0, OldData = [1], NewData = []\<rparr>],
       redoStack = [], isNew = True\<rparr> [ [], [1, 2]] None \<and>
   (\<exists>b'. Undo \<lparr>filename = [], data = [2], originalHash = [], modified = True,
       undoStack = [\<lparr>Type = OpInsert, Offset = 0, OldData = [], NewData = [1, 2]\<rparr>,
                    \<lparr>Type = OpDelete, Offset = 0, OldData = [1], NewData = []\<rparr>],
       redoStack = [], isNew = True\<rparr> = Some (b', True) \<and>
      data b' = [1, 2] \<and>
      undoStack b' = [\<lparr>Type = OpInsert, Offset = 0, OldData = [], NewData = [1, 2]\<rparr>] \<and>
      redoStack b' = [\<lparr>Type = OpDelete, Offset = 0, OldData = [1], NewData = []\<rparr>])"
proof -
  let ?b1 = "\<lparr>filename = [], data = [1, 2], originalHash = [], modified = True,
     undoStack = [\<lparr>Type = OpInsert, Offset = 0, OldData = [], NewData = [1, 2]\<rparr>],
     redoStack = [], isNew = True\<rparr>"
  let ?b2 = "\<lparr>filename = [], data = [2], originalHash = [], modified = True,
     undoStack = [\<lparr>Type = OpInsert, Offset = 0, OldData = [], NewData = [1, 2]\<rparr>,
                  \<lparr>Type = OpDelete, Offset = 0, OldData = [1], NewData = []\<rparr>],
     redoStack = [], isNew = True\<rparr>"
  have i: "Insert New 0 [1, 2] = Some ?b1" by code_simp
  have d: "Delete ?b1 0 1 = Some ?b2" by code_simp
  have "reach (\<lambda>d. d) ?b1 ([] @ [data New]) None"
    by (rule reach_Insert [OF reach_New _ i]) simp
  then have r1: "reach (\<lambda>d. d) ?b1 [ [] ] None" by (simp add: New_def)
  have "reach (\<lambda>d. d) ?b2 (if undoStack ?b2 = undoStack ?b1 then [ [] ] else [ [] ] @ [data ?b1]) None"
    by (rule reach_Delete [OF r1 _ _ d]) (simp_all add: is_int64_def)
  then have r2: "reach (\<lambda>d. d) ?b2 [ [], [1, 2]] None" by simp
  from Undo_restores_prior_content [OF r2] r2 show ?thesis by auto
qed

section \<open>Mutations and the redo stack\<close>

lemma ReplaceBytes_loop_noop:
  "(\<forall>j < length ds. wrap64 (offset + (i + int j)) < 0) \<Longrightarrow>
   ReplaceBytes_loop b offset i ds = Some b"
proof (induction ds arbitrary: i)
  case Nil
  show ?case by simp
next
  case (Cons d ds)
  from Cons.prems have neg: "wrap64 (offset + i) < 0" by force
  have rest: "\<forall>j < length ds. wrap64 (offset + (i + 1 + int j)) < 0"
  proof (intro allI impI)
    fix j assume "j < length ds"
    then have "Suc j < length (d # ds)" by simp
    with Cons.prems have "wrap64 (offset + (i + int (Suc j))) < 0" by blast
    moreover have "i + int (Suc j) = i + 1 + int j" by simp
    ultimately show "wrap64 (offset + (i + 1 + int j)) < 0" by (simp only:)
  qed
  have step: "Replace b (wrap64 (offset + i)) d = Some b"
    using neg by (simp add: Replace_noop)
  have nl: "\<not> wrap64 (offset + i) \<ge> len (data b)" using neg by simp
  show ?case using nl step Cons.IH [OF rest] by (simp add: Let_def)
qed

lemma ReplaceBytes_loop_applied:
  assumes "len (data b) + len ds < 2 ^ 63"
  shows "\<exists>b'. ReplaceBytes_loop b offset i ds = Some b' \<and>
              (redoStack b = [] \<longrightarrow> redoStack b' = []) \<and>
              ((\<exists>j < length ds. 0 \<le> wrap64 (offset + (i + int j))) \<longrightarrow> redoStack b' = [])"
  using assms
proof (induction ds arbitrary: b i)
  case Nil
  then show ?case by simp
next
  case (Cons d ds)
  define pos where "pos = wrap64 (offset + i)"
  have "\<exists>b1. (if pos \<ge> len (data b) then Insert b (len (data b)) [d] else Replace b pos d) = Some b1 \<and>
          length (data b1) \<le> length (data b) + 1 \<and>
          (0 \<le> pos \<longrightarrow> redoStack b1 = []) \<and>
          (redoStack b = [] \<longrightarrow> redoStack b1 = []) \<and>
          (pos < 0 \<longrightarrow> b1 = b)"
  proof (cases "pos \<ge> len (data b)")
    case True
    have "len (data b) + len [d] < 2 ^ 63" using Cons.prems by simp
    from Insert_eq [OF this, of "len (data b)"] True show ?thesis by simp
  next
    case False
    show ?thesis
    proof (cases "0 \<le> pos")
      case True
      with False Replace_eq [of pos b d] show ?thesis by simp
    next
      case neg: False
      then have "Replace b pos d = Some b" by (simp add: Replace_noop)
      with False neg show ?thesis by simp
    qed
  qed
  then obtain b1 where
    step: "(if pos \<ge> len (data b) then Insert b (len (data b)) [d] else Replace b pos d) = Some b1"
    and l1: "length (data b1) \<le> length (data b) + 1"
    and a1: "0 \<le> pos \<longrightarrow> redoStack b1 = []"
    and m1: "redoStack b = [] \<longrightarrow> redoStack b1 = []"
    and n1: "pos < 0 \<longrightarrow> b1 = b"
    by blast
  have "len (data b1) + len ds < 2 ^ 63" using Cons.prems l1 by simp
  from Cons.IH [OF this, of "i + 1"] obtain b' where
    b': "ReplaceBytes_loop b1 offset (i + 1) ds = Some b'"
    and m': "redoStack b1 = [] \<longrightarrow> redoStack b' = []"
    and a': "(\<exists>j < length ds. 0 \<le> wrap64 (offset + (i + 1 + int j))) \<longrightarrow> redoStack b' = []"
    by blast
  have run: "ReplaceBytes_loop b offset i (d # ds) = Some b'"
    using step b' unfolding pos_def by (auto simp: Let_def split: if_splits)
  have mono: "redoStack b = [] \<longrightarrow> redoStack b' = []" using m1 m' by simp
  have appl: "redoStack b' = []"
    if ex: "\<exists>j < length (d # ds). 0 \<le> wrap64 (offset + (i + int j))"
  proof (cases "0 \<le> pos")
    case True
    with a1 m' show ?thesis by simp
  next
    case False
    from ex obtain j where j: "j < length (d # ds)" "0 \<le> wrap64 (offset + (i + int j))"
      by blast
    have "j \<noteq> 0"
    proof
      assume "j = 0"
      with j(2) have "0 \<le> wrap64 (offset + i)" by simp
      with False show False by (simp add: pos_def)
    qed
    then obtain j' where jj: "j = Suc j'" by (cases j) simp_all
    have "i + int (Suc j') = i + 1 + int j'" by simp
    with j jj have "j' < length ds" "0 \<le> wrap64 (offset + (i + 1 + int j'))"
      by (simp_all del: of_nat_Suc)
    with a' show ?thesis by blast
  qed
  from run mono appl show ?case by blast
qed

lemma ReplaceBytes_applied:
  assumes "is_int64 offset" "ds \<noteq> []" "0 < offset + len ds" "len (data b) + len ds < 2 ^ 63"
  shows "\<exists>b'. ReplaceBytes b offset ds = Some b' \<and> redoStack b' = []"
proof -
  have ex: "\<exists>j < length ds. 0 \<le> wrap64 (offset + (0 + int j))"
  proof (cases "0 \<le> offset")
    case True
    have "wrap64 offset = offset" using True assms(1) by (intro wrap64_id) (simp_all add: is_int64_def)
    with True assms(2) show ?thesis by (intro exI [of _ 0]) simp
  next
    case False
    define j where "j = length ds - 1"
    have j: "j < length ds" "int j = len ds - 1" using assms(2) by (cases ds; simp add: j_def)+
    have r: "0 \<le> offset + int j" "offset + int j < 2 ^ 63"
      using False assms(3,4) j(2) by simp_all
    then have "wrap64 (offset + int j) = offset + int j" by (intro wrap64_id) simp_all
    with r j(1) show ?thesis by (intro exI [of _ j]) simp
  qed
  from ReplaceBytes_loop_applied [OF assms(4), of offset 0] ex
  show ?thesis unfolding ReplaceBytes_def by blast
qed

lemma ReplaceBytes_noop:
  assumes "is_int64 offset" "offset + len ds \<le> 0"
  shows "ReplaceBytes b offset ds = Some b"
proof -
  have "\<forall>j < length ds. wrap64 (offset + (0 + int j)) < 0"
  proof (intro allI impI)
    fix j assume "j < length ds"
    then have r: "offset + int j < 0" "- (2 ^ 63) \<le> offset + int j"
      using assms by (simp_all add: is_int64_def)
    then have "wrap64 (offset + int j) = offset + int j" by (intro wrap64_id) simp_all
    with r show "wrap64 (offset + (0 + int j)) < 0" by simp
  qed
  then show ?thesis unfolding ReplaceBytes_def by (rule ReplaceBytes_loop_noop)
qed

text \<open>
  C3 (amended). A mutation that is applied leaves the redo stack empty: \<open>Insert\<close> with any
  offset, \<open>Delete\<close> with \<open>0 \<le> offset < size\<close> and \<open>count > 0\<close> (\<open>offset + count\<close> an \<open>int64\<close>),
  \<open>Replace\<close> with \<open>0 \<le> offset < size\<close>, and \<open>ReplaceBytes\<close> with non-empty data whose last
  position is not negative (\<open>offset + len(data) > 0\<close>: every \<open>offset \<ge> 0\<close>, and a negative
  offset with enough bytes). A \<open>Delete\<close> with an out-of-range offset or a non-positive count,
  a \<open>Replace\<close> with an out-of-range offset, and a \<open>ReplaceBytes\<close> with empty data or with all
  its positions negative (\<open>offset + len(data) \<le> 0\<close>) are no-ops: they leave the buffer, and so
  its redo stack, as it was.
\<close>

theorem mutation_clears_redo:
  "(len (data b) + len ds < 2 ^ 63 \<longrightarrow>
      (\<exists>b'. Insert b offset ds = Some b' \<and> \<not> CanRedo b')) \<and>
   (0 \<le> offset \<and> offset < Size b \<and> 0 < count \<and> offset + count < 2 ^ 63 \<longrightarrow>
      (\<exists>b'. Delete b offset count = Some b' \<and> \<not> CanRedo b')) \<and>
   (0 \<le> offset \<and> offset < Size b \<longrightarrow>
      (\<exists>b'. Replace b offset newByte = Some b' \<and> \<not> CanRedo b')) \<and>
   (is_int64 start \<and> ds \<noteq> [] \<and> 0 < start + len ds \<and> len (data b) + len ds < 2 ^ 63 \<longrightarrow>
      (\<exists>b'. ReplaceBytes b start ds = Some b' \<and> \<not> CanRedo b')) \<and>
   (offset' < 0 \<or> offset' \<ge> Size b \<or> count' \<le> 0 \<longrightarrow> Delete b offset' count' = Some b) \<and>
   (offset' < 0 \<or> offset' \<ge> Size b \<longrightarrow> Replace b offset' newByte = Some b) \<and>
   (is_int64 start' \<and> start' + len ds \<le> 0 \<longrightarrow> ReplaceBytes b start' ds = Some b) \<and>
   ReplaceBytes b start [] = Some b"
proof (intro conjI)
  show "len (data b) + len ds < 2 ^ 63 \<longrightarrow>
           (\<exists>b'. Insert b offset ds = Some b' \<and> \<not> CanRedo b')"
    by (simp add: Insert_eq CanRedo_def)
  show "0 \<le> offset \<and> offset < Size b \<and> 0 < count \<and> offset + count < 2 ^ 63 \<longrightarrow>
           (\<exists>b'. Delete b offset count = Some b' \<and> \<not> CanRedo b')"
    by (simp add: Delete_eq CanRedo_def Size_def)
  show "0 \<le> offset \<and> offset < Size b \<longrightarrow>
           (\<exists>b'. Replace b offset newByte = Some b' \<and> \<not> CanRedo b')"
    by (simp add: Replace_eq CanRedo_def Size_def)
  show "is_int64 start \<and> ds \<noteq> [] \<and> 0 < start + len ds \<and> len (data b) + len ds < 2 ^ 63 \<longrightarrow>
           (\<exists>b'. ReplaceBytes b start ds = Some b' \<and> \<not> CanRedo b')"
    using ReplaceBytes_applied [of start ds b] by (auto simp: CanRedo_def)
  show "offset' < 0 \<or> offset' \<ge> Size b \<or> count' \<le> 0 \<longrightarrow> Delete b offset' count' = Some b"
    by (simp add: Delete_def Size_def)
  show "offset' < 0 \<or> offset' \<ge> Size b \<longrightarrow> Replace b offset' newByte = Some b"
    by (simp add: Replace_def Size_def)
  show "is_int64 start' \<and> start' + len ds \<le> 0 \<longrightarrow> ReplaceBytes b start' ds = Some b"
    using ReplaceBytes_noop [of start' ds b] by blast
  show "ReplaceBytes b start [] = Some b"
    by (simp add: ReplaceBytes_def)
qed

theorem mutation_clears_redo_witness:
  "(\<exists>b'. Insert \<lparr>filename = [], data = [1, 2], originalHash = [], modified = True,
       undoStack = [\<lparr>Type = OpInsert, Offset = 0, OldData = [], NewData = [1, 2]\<rparr>],
       redoStack = [\<lparr>Type = OpInsert, Offset = 2, OldData = [], NewData = [3]\<rparr>],
       isNew = True\<rparr> 0 [7, 8] = Some b' \<and> \<not> CanRedo b') \<and>
   (\<exists>b'. Delete \<lparr>filename = [], data = [1, 2], originalHash = [], modified = True,
       undoStack = [\<lparr>Type = OpInsert, Offset = 0, OldData = [], NewData = [1, 2]\<rparr>],
       redoStack = [\<lparr>Type = OpInsert, Offset = 2, OldData = [], NewData = [3]\<rparr>],
       isNew = True\<rparr> 0 1 = Some b' \<and> \<not> CanRedo b') \<and>
   (\<exists>b'. Replace \<lparr>filename = [], data = [1, 2], originalHash = [], modified = True,
       undoStack = [\<lparr>Type = OpInsert, Offset = 0, OldData = [], NewData = [1, 2]\<rparr>],
       redoStack = [\<lparr>Type = OpInsert, Offset = 2, OldData = [], NewData = [3]\<rparr>],
       isNew = True\<rparr> 0 9 = Some b' \<and> \<not> CanRedo b') \<and>
   (\<exists>b'. ReplaceBytes \<lparr>filename = [], data = [1, 2], originalHash = [], modified = True,
       undoStack = [\<lparr>Type = OpInsert, Offset = 0, OldData = [], NewData = [1, 2]\<rparr>],
       redoStack = [\<lparr>Type = OpInsert, Offset = 2, OldData = [], NewData = [3]\<rparr>],
       isNew = True\<rparr> (2 ^ 63 - 1) [7, 8] = Some b' \<and> \<not> CanRedo b') \<and>
   Delete \<lparr>filename = [], data = [1, 2], originalHash = [], modified = True,
       undoStack = [\<lparr>Type = OpInsert, Offset = 0, OldData = [], NewData = [1, 2]\<rparr>],
       redoStack = [\<lparr>Type = OpInsert, Offset = 2, OldData = [], NewData = [3]\<rparr>],
       isNew = True\<rparr> 5 1 =
     Some \<lparr>filename = [], data = [1, 2], originalHash = [], modified = True,
       undoStack = [\<lparr>Type = OpInsert, Offset = 0, OldData = [], NewData = [1, 2]\<rparr>],
       redoStack = [\<lparr>Type = OpInsert, Offset = 2, OldData = [], NewData = [3]\<rparr>],
       isNew = True\<rparr> \<and>
   Replace \<lparr>filename = [], data = [1, 2], originalHash = [], modified = True,
       undoStack = [\<lparr>Type = OpInsert, Offset = 0, OldData = [], NewData = [1, 2]\<rparr>],
       redoStack = [\<lparr>Type = OpInsert, Offset = 2, OldData = [], NewData = [3]\<rparr>],
       isNew = True\<rparr> 5 9 =
     Some \<lparr>filename = [], data = [1, 2], originalHash = [], modified = True,
       undoStack = [\<lparr>Type = OpInsert, Offset = 0, OldData = [], NewData = [1, 2]\<rparr>],
       redoStack = [\<lparr>Type = OpInsert, Offset = 2, OldData = [], NewData = [3]\<rparr>],
       isNew = True\<rparr> \<and>
   ReplaceBytes \<lparr>filename = [], data = [1, 2], originalHash = [], modified = True,
       undoStack = [\<lparr>Type = OpInsert, Offset = 0, OldData = [], NewData = [1, 2]\<rparr>],
       redoStack = [\<lparr>Type = OpInsert, Offset = 2, OldData = [], NewData = [3]\<rparr>],
       isNew = True\<rparr> (- 2) [7, 8] =
     Some \<lparr>filename = [], data = [1, 2], originalHash = [], modified = True,
       undoStack = [\<lparr>Type = OpInsert, Offset = 0, OldData = [], NewData = [1, 2]\<rparr>],
       redoStack = [\<lparr>Type = OpInsert, Offset = 2, OldData = [], NewData = [3]\<rparr>],
       isNew = True\<rparr>"
  using mutation_clears_redo [where b = "\<lparr>filename = [], data = [1, 2], originalHash = [], modified = True,
       undoStack = [\<lparr>Type = OpInsert, Offset = 0, OldData = [], NewData = [1, 2]\<rparr>],
       redoStack = [\<lparr>Type = OpInsert, Offset = 2, OldData = [], NewData = [3]\<rparr>],
       isNew = True\<rparr>"
      and ds = "[7, 8]" and offset = 0 and count = 1 and newByte = 9 and start = "2 ^ 63 - 1"
      and offset' = 5 and count' = 1 and start' = "- 2"]
  by (simp add: Size_def is_int64_def)

text \<open>
  C3 as stated fails: in the state reached by \<open>Insert(0, [1, 2])\<close>, \<open>Insert(2, [3])\<close>, \<open>Undo()\<close>
  the redo stack holds one operation, and it still does after \<open>Delete(0, 0)\<close>,
  \<open>Delete(5, 1)\<close>, \<open>Replace(2, 9)\<close>, \<open>ReplaceBytes(-2, [7, 8])\<close> and \<open>ReplaceBytes(0, [])\<close>.
\<close>

theorem noop_mutation_keeps_redo:
  "map_option CanRedo
     (Delete \<lparr>filename = [], data = [1, 2], originalHash = [], modified = True,
       undoStack = [\<lparr>Type = OpInsert, Offset = 0, OldData = [], NewData = [1, 2]\<rparr>],
       redoStack = [\<lparr>Type = OpInsert, Offset = 2, OldData = [], NewData = [3]\<rparr>],
       isNew = True\<rparr> 0 0) = Some True \<and>
   map_option CanRedo
     (Delete \<lparr>filename = [], data = [1, 2], originalHash = [], modified = True,
       undoStack = [\<lparr>Type = OpInsert, Offset = 0, OldData = [], NewData = [1, 2]\<rparr>],
       redoStack = [\<lparr>Type = OpInsert, Offset = 2, OldData = [], NewData = [3]\<rparr>],
       isNew = True\<rparr> 5 1) = Some True \<and>
   map_option CanRedo
     (Replace \<lparr>filename = [], data = [1, 2], originalHash = [], modified = True,
       undoStack = [\<lparr>Type = OpInsert, Offset = 0, OldData = [], NewData = [1, 2]\<rparr>],
       redoStack = [\<lparr>Type = OpInsert, Offset = 2, OldData = [], NewData = [3]\<rparr>],
       isNew = True\<rparr> 2 9) = Some True \<and>
   map_option CanRedo
     (ReplaceBytes \<lparr>filename = [], data = [1, 2], originalHash = [], modified = True,
       undoStack = [\<lparr>Type = OpInsert, Offset = 0, OldData = [], NewData = [1, 2]\<rparr>],
       redoStack = [\<lparr>Type = OpInsert, Offset = 2, OldData = [], NewData = [3]\<rparr>],
       isNew = True\<rparr> (- 2) [7, 8]) = Some True \<and>
   map_option CanRedo
     (ReplaceBytes \<lparr>filename = [], data = [1, 2], originalHash = [], modified = True,
       undoStack = [\<lparr>Type = OpInsert, Offset = 0, OldData = [], NewData = [1, 2]\<rparr>],
       redoStack = [\<lparr>Type = OpInsert, Offset = 2, OldData = [], NewData = [3]\<rparr>],
       isNew = True\<rparr> 0 []) = Some True"
  by (intro conjI; code_simp)

lemma redo_pending_state:
  "Insert New 0 [1, 2] \<bind> (\<lambda>b. Insert b 2 [3]) \<bind> Undo =
   Some (\<lparr>filename = [], data = [1, 2], originalHash = [], modified = True,
       undoStack = [\<lparr>Type = OpInsert, Offset = 0, OldData = [], NewData = [1, 2]\<rparr>],
       redoStack = [\<lparr>Type = OpInsert, Offset = 2, OldData = [], NewData = [3]\<rparr>],
       isNew = True\<rparr>, True)"
  by code_simp

section \<open>Insert of no bytes\<close>

text \<open>
  C9. \<open>Insert\<close> with empty data returns normally, pushes an Insert operation with empty
  \<open>newData\<close> onto the undo stack, clears the redo stack and sets \<open>modified\<close>, while the content
  stays as it was; the following \<open>Undo\<close> returns true and again changes no content. In
  particular, right after a successful \<open>Save\<close> the buffer reports \<open>IsModified\<close> although its
  content is still the content of the saved file.
\<close>

theorem Insert_empty_is_recorded:
  assumes "length (data b) < 2 ^ 63"
  shows "\<exists>b' b''.
           Insert b offset [] = Some b' \<and>
           undoStack b' = undoStack b @
             [\<lparr>Type = OpInsert, Offset = min (max offset 0) (Size b), OldData = [], NewData = []\<rparr>] \<and>
           redoStack b' = [] \<and> modified b' \<and> IsModified b' \<and> data b' = data b \<and>
           Undo b' = Some (b'', True) \<and> data b'' = data b \<and>
           (\<forall>fs fs' b0. Save sum256 fs b0 = (fs', b, None) \<longrightarrow>
              \<not> IsModified b \<and> files fs' (filename b') = Some (data b'))"
proof -
  define op where
    "op = \<lparr>Type = OpInsert, Offset = min (max offset 0) (len (data b)), OldData = [], NewData = []\<rparr>"
  define b' where "b' = b\<lparr>undoStack := undoStack b @ [op], redoStack := [],
             data := take (nat offset) (data b) @ [] @ drop (nat offset) (data b),
             modified := True\<rparr>"
  have ins: "Insert b offset [] = Some b'"
    using assms Insert_eq [of b "[]" offset] by (simp add: b'_def op_def)
  have d': "data b' = data b" by (simp add: b'_def)
  have us: "undoStack b' \<noteq> []" "last (undoStack b') = op" "butlast (undoStack b') = undoStack b"
    by (simp_all add: b'_def)
  have rec: "recorded op (data b)" by (simp add: recorded_def op_def)
  have fa: "data b' = forward_apply op (data b)"
    by (simp add: d' forward_apply_def op_def Let_def)
  have bd': "length (data b') < 2 ^ 63" using assms by (simp add: d')
  from Undo_step [OF us(1) us(2) [symmetric] rec fa assms bd']
  have un: "Undo b' = Some (b'\<lparr>undoStack := butlast (undoStack b'), data := data b,
                          redoStack := redoStack b' @ [op],
                          modified := (butlast (undoStack b') \<noteq> [])\<rparr>, True)" .
  have sv: "\<forall>fs fs' b0. Save sum256 fs b0 = (fs', b, None) \<longrightarrow>
              \<not> IsModified b \<and> files fs' (filename b') = Some (data b')"
    by (auto simp: Save_def os_WriteFile_def IsModified_def b'_def Let_def
             split: if_splits option.splits)
  show ?thesis
    using ins un sv d' by (simp add: b'_def op_def Size_def IsModified_def)
qed


theorem Insert_empty_is_recorded_witness:
  "Save (\<lambda>d. d)
     \<lparr>files = Map.empty, open_fault = Map.empty, read_fault = Map.empty, write_fault = Map.empty\<rparr>
     \<lparr>filename = ''f'', data = [1, 2], originalHash = [], modified = True,
       undoStack = [\<lparr>Type = OpInsert, Offset = 0, OldData = [], NewData = [1, 2]\<rparr>],
       redoStack = [], isNew = True\<rparr> =
   (\<lparr>files = [''f'' \<mapsto> [1, 2]], open_fault = Map.empty, read_fault = Map.empty,
      write_fault = Map.empty\<rparr>,
    \<lparr>filename = ''f'', data = [1, 2], originalHash = ''0102'', modified = False,
      undoStack = [], redoStack = [], isNew = False\<rparr>, None) \<and>
   (\<exists>b' b''.
      Insert \<lparr>filename = ''f'', data = [1, 2], originalHash = ''0102'', modified = False,
               undoStack = [], redoStack = [], isNew = False\<rparr> 1 [] = Some b' \<and>
      undoStack b' = [\<lparr>Type = OpInsert, Offset = 1, OldData = [], NewData = []\<rparr>] \<and>
      IsModified b' \<and> data b' = [1, 2] \<and>
      Undo b' = Some (b'', True) \<and> data b'' = [1, 2] \<and>
      files \<lparr>files = [''f'' \<mapsto> [1, 2]], open_fault = Map.empty, read_fault = Map.empty,
               write_fault = Map.empty\<rparr> (filename b') = Some (data b'))"
proof -
  let ?fs = "\<lparr>files = Map.empty, open_fault = Map.empty, read_fault = Map.empty,
              write_fault = Map.empty\<rparr>"
  let ?fs' = "\<lparr>files = [''f'' \<mapsto> [1, 2]], open_fault = Map.empty, read_fault = Map.empty,
               write_fault = Map.empty\<rparr>"
  let ?saved = "\<lparr>filename = ''f'', data = [1, 2], originalHash = [], modified = True,
       undoStack = [\<lparr>Type = OpInsert, Offset = 0, OldData = [], NewData = [1, 2]\<rparr>],
       redoStack = [], isNew = True\<rparr>"
  let ?b = "\<lparr>filename = ''f'', data = [1, 2], originalHash = ''0102'', modified = False,
      undoStack = [], redoStack = [], isNew = False\<rparr>"
  have hx: "hex_EncodeToString [1, 2] = ''0102''" by code_simp
  have sv: "Save (\<lambda>d. d) ?fs ?saved = (?fs', ?b, None)"
    by (simp add: Save_def os_WriteFile_def hx)
  have "length (data ?b) < 2 ^ 63" by simp
  from Insert_empty_is_recorded [OF this, of 1 "\<lambda>d. d"] obtain b' b'' where
    r: "Insert ?b 1 [] = Some b'"
       "undoStack b' = undoStack ?b @
             [\<lparr>Type = OpInsert, Offset = min (max 1 0) (Size ?b), OldData = [], NewData = []\<rparr>]"
       "IsModified b'" "data b' = data ?b" "Undo b' = Some (b'', True)" "data b'' = data ?b"
       "\<forall>fs fs' b0. Save (\<lambda>d. d) fs b0 = (fs', ?b, None) \<longrightarrow>
              \<not> IsModified ?b \<and> files fs' (filename b') = Some (data b')"
    by blast
  from r(7) sv have "files ?fs' (filename b') = Some (data b')" by blast
  with sv r(1-6) show ?thesis by (simp add: Size_def)
qed

section \<open>Calls that panic\<close>

text \<open>
  C4 fails on the code: \<open>Find\<close> in forward direction starts its scan at a negative
  \<open>startOffset\<close> and indexes the content there, \<open>GetBytes\<close> passes a negative count on to
  \<open>make\<close>, and \<open>Delete\<close> with a count near the largest \<open>int\<close> overflows its clamp; each call
  panics.
\<close>

theorem out_of_range_arguments_panic:
  "Find (New\<lparr>data := [65]\<rparr>) [65] (- 1) True = None \<and>
   GetBytes (New\<lparr>data := [65]\<rparr>) 0 (- 1) = None \<and>
   Delete (New\<lparr>data := [65, 66]\<rparr>) 1 (2 ^ 63 - 1) = None"
proof (intro conjI)
  show "Find (New\<lparr>data := [65]\<rparr>) [65] (- 1) True = None" by code_simp
  show "GetBytes (New\<lparr>data := [65]\<rparr>) 0 (- 1) = None" by code_simp
  show "Delete (New\<lparr>data := [65, 66]\<rparr>) 1 (2 ^ 63 - 1) = None"
    by (rule Delete_overflow) simp_all
qed

section \<open>Save\<close>

text \<open>
  C7. \<open>Save\<close> returns the error \<open>no filename set\<close> exactly when no path is bound. Whenever it
  returns an error the buffer is unchanged. When it returns no error, the file at the bound
  path holds exactly the content of the buffer, content and path are as before, the stored
  digest is the digest of the content, \<open>modified\<close> and \<open>isNew\<close> are false and both stacks are
  empty.
\<close>

theorem Save_outcomes:
  "\<exists>fs' b' err.
     Save sum256 fs b = (fs', b', err) \<and>
     ((err = Some (Errorf ''no filename set'')) = (filename b = [])) \<and>
     (err \<noteq> None \<longrightarrow> b' = b) \<and>
     (err = None \<longrightarrow>
        files fs' (filename b) = Some (data b) \<and>
        data b' = data b \<and> filename b' = filename b \<and>
        originalHash b' = hex_EncodeToString (sum256 (data b)) \<and>
        \<not> modified b' \<and> undoStack b' = [] \<and> redoStack b' = [] \<and> \<not> isNew b')"
  by (cases "write_fault fs (filename b)") (simp_all add: Save_def os_WriteFile_def Let_def)

theorem Save_outcomes_witness:
  "Save (\<lambda>d. d)
     \<lparr>files = Map.empty, open_fault = Map.empty, read_fault = Map.empty, write_fault = Map.empty\<rparr>
     (New\<lparr>data := [1, 2], modified := True\<rparr>) =
   (\<lparr>files = Map.empty, open_fault = Map.empty, read_fault = Map.empty, write_fault = Map.empty\<rparr>,
    New\<lparr>data := [1, 2], modified := True\<rparr>, Some (Errorf ''no filename set'')) \<and>
   Save (\<lambda>d. d)
     \<lparr>files = Map.empty, open_fault = Map.empty, read_fault = Map.empty,
       write_fault = [''f'' \<mapsto> ''permission denied'']\<rparr>
     (New\<lparr>filename := ''f'', data := [1, 2], modified := True\<rparr>) =
   (\<lparr>files = Map.empty, open_fault = Map.empty, read_fault = Map.empty,
      write_fault = [''f'' \<mapsto> ''permission denied'']\<rparr>,
    New\<lparr>filename := ''f'', data := [1, 2], modified := True\<rparr>,
    Some (IOError ''permission denied'')) \<and>
   Save (\<lambda>d. d)
     \<lparr>files = Map.empty, open_fault = Map.empty, read_fault = Map.empty, write_fault = Map.empty\<rparr>
     (New\<lparr>filename := ''f'', data := [1, 2], modified := True\<rparr>) =
   (\<lparr>files = [''f'' \<mapsto> [1, 2]], open_fault = Map.empty, read_fault = Map.empty,
      write_fault = Map.empty\<rparr>,
    \<lparr>filename = ''f'', data = [1, 2], originalHash = ''0102'', modified = False,
      undoStack = [], redoStack = [], isNew = False\<rparr>, None)"
proof -
  let ?fs = "\<lparr>files = Map.empty, open_fault = Map.empty, read_fault = Map.empty,
              write_fault = Map.empty\<rparr>"
  let ?ro = "\<lparr>files = Map.empty, open_fault = Map.empty, read_fault = Map.empty,
              write_fault = [''f'' \<mapsto> ''permission denied'']\<rparr>"
  let ?u = "New\<lparr>data := [1, 2], modified := True\<rparr>"
  let ?c = "New\<lparr>filename := ''f'', data := [1, 2], modified := True\<rparr>"
  have hx: "hex_EncodeToString [1, 2] = ''0102''" by code_simp
  have e1: "snd (snd (Save (\<lambda>d. d) ?fs ?u)) = Some (Errorf ''no filename set'')"
    by (simp add: Save_def New_def)
  have e2: "snd (snd (Save (\<lambda>d. d) ?ro ?c)) = Some (IOError ''permission denied'')"
    by (simp add: Save_def os_WriteFile_def New_def)
  have e3: "snd (snd (Save (\<lambda>d. d) ?fs ?c)) = None"
    by (simp add: Save_def os_WriteFile_def New_def)
  have f1: "fst (Save (\<lambda>d. d) ?fs ?u) = ?fs" by (simp add: Save_def New_def)
  have f2: "fst (Save (\<lambda>d. d) ?ro ?c) = ?ro" by (simp add: Save_def os_WriteFile_def New_def)
  have f3: "fst (Save (\<lambda>d. d) ?fs ?c) = ?fs\<lparr>files := [''f'' \<mapsto> [1, 2]]\<rparr>"
    by (simp add: Save_def os_WriteFile_def New_def)
  from Save_outcomes [of "\<lambda>d. d" ?fs ?u] e1 f1
  have 1: "Save (\<lambda>d. d) ?fs ?u = (?fs, ?u, Some (Errorf ''no filename set''))" by auto
  from Save_outcomes [of "\<lambda>d. d" ?ro ?c] e2 f2
  have 2: "Save (\<lambda>d. d) ?ro ?c = (?ro, ?c, Some (IOError ''permission denied''))" by auto
  from Save_outcomes [of "\<lambda>d. d" ?fs ?c] e3 f3
  have 3: "Save (\<lambda>d. d) ?fs ?c =
    (\<lparr>files = [''f'' \<mapsto> [1, 2]], open_fault = Map.empty, read_fault = Map.empty,
      write_fault = Map.empty\<rparr>,
    \<lparr>filename = ''f'', data = [1, 2], originalHash = ''0102'', modified = False,
      undoStack = [], redoStack = [], isNew = False\<rparr>, None)"
    by (auto simp: hx New_def)
  from 1 2 3 show ?thesis by simp
qed

section \<open>The stored digest, HasChangedOnDisk and SetFilename\<close>

lemma Insert_frame:
  "Insert b offset ds = Some b' \<Longrightarrow>
   originalHash b' = originalHash b \<and> filename b' = filename b \<and> isNew b' = isNew b"
  by (auto simp: Insert_def Let_def split: bind_splits)

lemma Delete_frame:
  "Delete b offset count = Some b' \<Longrightarrow>
   originalHash b' = originalHash b \<and> filename b' = filename b \<and> isNew b' = isNew b"
  by (auto simp: Delete_def Let_def split: bind_splits if_splits)

lemma Replace_frame:
  "Replace b offset newByte = Some b' \<Longrightarrow>
   originalHash b' = originalHash b \<and> filename b' = filename b \<and> isNew b' = isNew b"
  by (auto simp: Replace_def Let_def split: bind_splits if_splits)

lemma Undo_frame:
  "Undo b = Some (b', r) \<Longrightarrow>
   originalHash b' = originalHash b \<and> filename b' = filename b \<and> isNew b' = isNew b"
  by (cases "Type (last (undoStack b))")
     (auto simp: Undo_def Let_def split: bind_splits if_splits)

lemma Redo_frame:
  "Redo b = Some (b', r) \<Longrightarrow>
   originalHash b' = originalHash b \<and> filename b' = filename b \<and> isNew b' = isNew b"
  by (cases "Type (last (redoStack b))")
     (auto simp: Redo_def Let_def split: bind_splits if_splits)

text \<open>The stored digest is the digest of the content at the last \<open>Open\<close> or \<open>Save\<close>, and
  empty when there was none.\<close>

lemma reach_digest:
  "reach sum256 b h s \<Longrightarrow>
   originalHash b = (case s of None \<Rightarrow> [] | Some c \<Rightarrow> hex_EncodeToString (sum256 c))"
proof (induction rule: reach.induct)
  case reach_New
  show ?case by (simp add: New_def)
next
  case (reach_Open fs name b)
  then show ?case using Open_Inr [of sum256 fs name b] by simp
next
  case (reach_Insert b h s ds offset b')
  then show ?case using Insert_frame [of b offset ds b'] by simp
next
  case (reach_Delete b h s offset count b')
  then show ?case using Delete_frame [of b offset count b'] by simp
next
  case (reach_Replace b h s offset newByte b')
  then show ?case using Replace_frame [of b offset newByte b'] by simp
next
  case (reach_Undo b h s b' r)
  then show ?case using Undo_frame [of b b' r] by simp
next
  case (reach_Redo b h s b' r)
  then show ?case using Redo_frame [of b b' r] by simp
next
  case (reach_SetFilename b h s name)
  then show ?case by (simp add: SetFilename_def)
next
  case (reach_Save b h s fs fs' b' err)
  from Save_cases [OF reach_Save.hyps(2)] reach_Save.IH
  show ?case by auto
next
  case (reach_SaveAs b h s fs name fs' b' err)
  from reach_SaveAs.hyps(2) have "Save sum256 fs (b\<lparr>filename := name\<rparr>) = (fs', b', err)"
    by (simp add: SaveAs_def)
  from Save_cases [OF this] reach_SaveAs.IH
  show ?case by auto
qed

lemma HasChangedOnDisk_reread:
  "HasChangedOnDisk sum256 fs b =
     (if isNew b \<or> filename b = [] then (False, None)
      else case reread fs (filename b) of
             Inl err \<Rightarrow> (False, Some err)
           | Inr d \<Rightarrow> (hex_EncodeToString (sum256 d) \<noteq> originalHash b, None))"
  by (simp add: HasChangedOnDisk_def reread_def Let_def split: sum.splits)

text \<open>
  C8. For a new or unbound buffer \<open>HasChangedOnDisk\<close> returns \<open>(false, nil)\<close>. Otherwise, when
  the bound file can be re-read, it returns with a nil error whether the digest of the file's
  content differs from the stored digest, which in a reachable state is the digest of the
  content at the last \<open>Open\<close> or \<open>Save\<close>; when the re-read fails it returns that error.
\<close>

theorem HasChangedOnDisk_outcomes:
  assumes "reach sum256 b h s"
  shows "(isNew b \<or> filename b = [] \<longrightarrow> HasChangedOnDisk sum256 fs b = (False, None)) \<and>
         (\<not> isNew b \<and> filename b \<noteq> [] \<longrightarrow>
            (\<forall>d. reread fs (filename b) = Inr d \<longrightarrow>
               HasChangedOnDisk sum256 fs b =
                 (hex_EncodeToString (sum256 d) \<noteq> originalHash b, None) \<and>
               (\<forall>c. s = Some c \<longrightarrow>
                  HasChangedOnDisk sum256 fs b =
                    (hex_EncodeToString (sum256 d) \<noteq> hex_EncodeToString (sum256 c), None))) \<and>
            (\<forall>err. reread fs (filename b) = Inl err \<longrightarrow>
               HasChangedOnDisk sum256 fs b = (False, Some err)))"
  using reach_digest [OF assms] by (auto simp: HasChangedOnDisk_reread)

theorem HasChangedOnDisk_outcomes_witness:
  "reach (\<lambda>d. d)
     \<lparr>filename = ''f'', data = [1], originalHash = ''01'', modified = False,
       undoStack = [], redoStack = [], isNew = False\<rparr> [] (Some [1]) \<and>
   HasChangedOnDisk (\<lambda>d. d)
     \<lparr>files = [''f'' \<mapsto> [2]], open_fault = Map.empty, read_fault = Map.empty,
       write_fault = Map.empty\<rparr>
     \<lparr>filename = ''f'', data = [1], originalHash = ''01'', modified = False,
       undoStack = [], redoStack = [], isNew = False\<rparr> = (True, None) \<and>
   HasChangedOnDisk (\<lambda>d. d)
     \<lparr>files = [''f'' \<mapsto> [1]], open_fault = Map.empty, read_fault = Map.empty,
       write_fault = Map.empty\<rparr>
     \<lparr>filename = ''f'', data = [1], originalHash = ''01'', modified = False,
       undoStack = [], redoStack = [], isNew = False\<rparr> = (False, None) \<and>
   HasChangedOnDisk (\<lambda>d. d)
     \<lparr>files = [''f'' \<mapsto> [1]], open_fault = [''f'' \<mapsto> ''permission denied''],
       read_fault = Map.empty, write_fault = Map.empty\<rparr>
     \<lparr>filename = ''f'', data = [1], originalHash = ''01'', modified = False,
       undoStack = [], redoStack = [], isNew = False\<rparr> =
     (False, Some (IOError ''permission denied'')) \<and>
   HasChangedOnDisk (\<lambda>d. d)
     \<lparr>files = [''f'' \<mapsto> [1]], open_fault = Map.empty, read_fault = Map.empty,
       write_fault = Map.empty\<rparr> New = (False, None)"
proof -
  let ?same = "\<lparr>files = [''f'' \<mapsto> [1]], open_fault = Map.empty, read_fault = Map.empty,
       write_fault = Map.empty\<rparr>"
  let ?changed = "\<lparr>files = [''f'' \<mapsto> [2]], open_fault = Map.empty, read_fault = Map.empty,
       write_fault = Map.empty\<rparr>"
  let ?denied = "\<lparr>files = [''f'' \<mapsto> [1]], open_fault = [''f'' \<mapsto> ''permission denied''],
       read_fault = Map.empty, write_fault = Map.empty\<rparr>"
  let ?b = "\<lparr>filename = ''f'', data = [1], originalHash = ''01'', modified = False,
       undoStack = [], redoStack = [], isNew = False\<rparr>"
  have hx: "hex_EncodeToString [1] = ''01''" "hex_EncodeToString [2] = ''02''" by code_simp+
  have op: "Open (\<lambda>d. d) ?same ''f'' = Inr ?b"
    by (simp add: Open_def os_Open_def io_ReadAll_def hx)
  have "reach (\<lambda>d. d) ?b [] (Some (data ?b))"
    by (rule reach_Open [OF op]) simp
  then have r: "reach (\<lambda>d. d) ?b [] (Some [1])" by simp
  have rr: "reread ?changed ''f'' = Inr [2]" "reread ?same ''f'' = Inr [1]"
           "reread ?denied ''f'' = Inl (IOError ''permission denied'')"
    by (simp_all add: reread_def os_Open_def io_ReadAll_def)
  from HasChangedOnDisk_outcomes [OF r, of ?changed] rr(1)
  have 1: "HasChangedOnDisk (\<lambda>d. d) ?changed ?b = (True, None)" by (simp add: hx)
  from HasChangedOnDisk_outcomes [OF r, of ?same] rr(2)
  have 2: "HasChangedOnDisk (\<lambda>d. d) ?same ?b = (False, None)" by (simp add: hx)
  from HasChangedOnDisk_outcomes [OF r, of ?denied] rr(3)
  have 3: "HasChangedOnDisk (\<lambda>d. d) ?denied ?b = (False, Some (IOError ''permission denied''))"
    by simp
  from HasChangedOnDisk_outcomes [OF reach_New, of "\<lambda>d. d" ?same]
  have 4: "HasChangedOnDisk (\<lambda>d. d) ?same New = (False, None)" by (simp add: New_def)
  from r 1 2 3 4 show ?thesis by simp
qed

lemma length_hex_EncodeToString: "length (hex_EncodeToString src) = 2 * length src"
  by (induction src) (simp_all add: hex_EncodeToString_def)

text \<open>
  C10. \<open>SetFilename\<close> sets the path and clears \<open>isNew\<close>, and leaves content, \<open>modified\<close>, the
  stored digest and both stacks as they were. A buffer that was never opened or saved has an
  empty stored digest, so once it is bound (here: by \<open>SetFilename\<close> with a non-empty name)
  \<open>HasChangedOnDisk\<close> returns true for every readable file, the digest of a file being 32
  bytes and its hexadecimal form 64 characters.
\<close>

theorem SetFilename_captures_no_digest:
  "filename (SetFilename b name) = name \<and> \<not> isNew (SetFilename b name) \<and>
   data (SetFilename b name) = data b \<and> modified (SetFilename b name) = modified b \<and>
   originalHash (SetFilename b name) = originalHash b \<and>
   undoStack (SetFilename b name) = undoStack b \<and>
   redoStack (SetFilename b name) = redoStack b \<and>
   (reach sum256 b h None \<and> name \<noteq> [] \<and> reread fs name = Inr d \<and> length (sum256 d) = 32 \<longrightarrow>
      originalHash (SetFilename b name) = [] \<and>
      HasChangedOnDisk sum256 fs (SetFilename b name) = (True, None)) \<and>
   (reach sum256 c h' None \<and> \<not> isNew c \<and> filename c \<noteq> [] \<and>
    reread fs (filename c) = Inr d \<and> length (sum256 d) = 32 \<longrightarrow>
      originalHash c = [] \<and> HasChangedOnDisk sum256 fs c = (True, None))"
proof -
  have "hex_EncodeToString (sum256 d) \<noteq> []" if "length (sum256 d) = 32"
    using length_hex_EncodeToString [of "sum256 d"] that by auto
  moreover have "originalHash b = []" if "reach sum256 b h None"
    using reach_digest [OF that] by simp
  moreover have "originalHash c = []" if "reach sum256 c h' None"
    using reach_digest [OF that] by simp
  ultimately show ?thesis
    by (auto simp: HasChangedOnDisk_reread SetFilename_def)
qed


theorem SetFilename_captures_no_digest_witness:
  "reach (\<lambda>d. replicate 32 0) New [] None \<and>
   reread \<lparr>files = [''f'' \<mapsto> [1]], open_fault = Map.empty, read_fault = Map.empty,
       write_fault = Map.empty\<rparr> ''f'' = Inr [1] \<and>
   originalHash (SetFilename New ''f'') = [] \<and>
   HasChangedOnDisk (\<lambda>d. replicate 32 0)
     \<lparr>files = [''f'' \<mapsto> [1]], open_fault = Map.empty, read_fault = Map.empty,
       write_fault = Map.empty\<rparr> (SetFilename New ''f'') = (True, None)"
proof -
  let ?fs = "\<lparr>files = [''f'' \<mapsto> [1]], open_fault = Map.empty, read_fault = Map.empty,
       write_fault = Map.empty\<rparr>"
  let ?H = "\<lambda>d :: bytes. replicate 32 (0 :: byte)"
  have rr: "reread ?fs ''f'' = Inr [1]"
    by (simp add: reread_def os_Open_def io_ReadAll_def)
  have r: "reach ?H New [] None" by (rule reach_New)
  have r': "reach ?H (SetFilename New ''f'') [] None" by (rule reach_SetFilename [OF r])
  have rr': "reread ?fs (filename (SetFilename New ''f'')) = Inr [1]"
    using rr by (simp add: SetFilename_def)
  have nn: "\<not> isNew (SetFilename New ''f'')" "filename (SetFilename New ''f'') \<noteq> []"
    by (simp_all add: SetFilename_def)
  have l: "length (?H [1]) = 32" by simp
  from SetFilename_captures_no_digest
         [of New "''f''" ?H "[]" ?fs "[1]" "SetFilename New ''f''" "[]"] r r' rr rr' nn l
  show ?thesis by blast
qed

section \<open>Find\<close>

lemma match_loop_eq:
  "0 \<le> i + j \<Longrightarrow> i + j + len ps \<le> len d \<Longrightarrow>
   match_loop d i j ps = Some (take (length ps) (drop (nat (i + j)) d) = ps)"
proof (induction ps arbitrary: j)
  case Nil
  then show ?case by simp
next
  case (Cons p ps)
  define n where "n = nat (i + j)"
  have n: "n < length d" "i + j = int n" using Cons.prems by (simp_all add: n_def)
  have ix: "index d (i + j) = Some (d ! n)" using n by (simp add: index_def)
  have dr: "drop n d = d ! n # drop (Suc n) d" using n by (simp add: Cons_nth_drop_Suc)
  have nx: "nat (i + (j + 1)) = Suc n" using n by simp
  have "match_loop d i (j + 1) ps = Some (take (length ps) (drop (nat (i + (j + 1))) d) = ps)"
    using Cons.prems by (intro Cons.IH) simp_all
  then show ?case by (simp add: ix n_def [symmetric] dr nx)
qed

lemma match_loop_matches_at:
  assumes "0 \<le> i" "i \<le> len d - len pattern"
  shows "match_loop d i 0 pattern = Some (matches_at d pattern i)"
  using assms match_loop_eq [of i 0 pattern d] by (simp add: matches_at_def)

lemma Find_forward_lowest:
  "0 \<le> i \<Longrightarrow>
   \<exists>r. Find_forward d pattern i = Some r \<and>
       ((r = - 1 \<and> (\<forall>k. i \<le> k \<longrightarrow> \<not> matches_at d pattern k)) \<or>
        (i \<le> r \<and> matches_at d pattern r \<and>
         (\<forall>k. i \<le> k \<and> k < r \<longrightarrow> \<not> matches_at d pattern k)))"
proof (induction d pattern i rule: Find_forward.induct)
  case (1 d pattern i)
  show ?case
  proof (cases "i \<le> len d - len pattern")
    case False
    then have "\<forall>k. i \<le> k \<longrightarrow> \<not> matches_at d pattern k" by (auto simp: matches_at_def)
    with False show ?thesis by simp
  next
    case True
    note m = match_loop_matches_at [OF "1.prems" True]
    show ?thesis
    proof (cases "matches_at d pattern i")
      case True
      with m \<open>i \<le> len d - len pattern\<close> show ?thesis by auto
    next
      case False
      have "0 \<le> i + 1" using "1.prems" by simp
      from "1.IH" [OF \<open>i \<le> len d - len pattern\<close> m False this]
      obtain r where r: "Find_forward d pattern (i + 1) = Some r"
        "(r = - 1 \<and> (\<forall>k. i + 1 \<le> k \<longrightarrow> \<not> matches_at d pattern k)) \<or>
         (i + 1 \<le> r \<and> matches_at d pattern r \<and>
          (\<forall>k. i + 1 \<le> k \<and> k < r \<longrightarrow> \<not> matches_at d pattern k))"
        by blast
      have step: "Find_forward d pattern i = Some r"
        using True m False r(1) by simp
      have ext: "\<not> matches_at d pattern k" if "k = i" for k using that False by simp
      from r(2) show ?thesis
      proof
        assume a: "r = - 1 \<and> (\<forall>k. i + 1 \<le> k \<longrightarrow> \<not> matches_at d pattern k)"
        have "\<forall>k. i \<le> k \<longrightarrow> \<not> matches_at d pattern k"
        proof (intro allI impI)
          fix k assume "i \<le> k"
          then consider "k = i" | "i + 1 \<le> k" by linarith
          then show "\<not> matches_at d pattern k" using a False by cases auto
        qed
        with a step show ?thesis by simp
      next
        assume a: "i + 1 \<le> r \<and> matches_at d pattern r \<and>
          (\<forall>k. i + 1 \<le> k \<and> k < r \<longrightarrow> \<not> matches_at d pattern k)"
        have "\<forall>k. i \<le> k \<and> k < r \<longrightarrow> \<not> matches_at d pattern k"
        proof (intro allI impI)
          fix k assume "i \<le> k \<and> k < r"
          then consider "k = i" | "i + 1 \<le> k \<and> k < r" by linarith
          then show "\<not> matches_at d pattern k" using a False by cases auto
        qed
        with a step show ?thesis by simp
      qed
    qed
  qed
qed

lemma Find_backward_highest:
  "i \<le> len d - len pattern \<Longrightarrow>
   \<exists>r. Find_backward d pattern i = Some r \<and>
       ((r = - 1 \<and> (\<forall>k. k \<le> i \<longrightarrow> \<not> matches_at d pattern k)) \<or>
        (0 \<le> r \<and> r \<le> i \<and> matches_at d pattern r \<and>
         (\<forall>k. r < k \<and> k \<le> i \<longrightarrow> \<not> matches_at d pattern k)))"
proof (induction d pattern i rule: Find_backward.induct)
  case (1 d pattern i)
  show ?case
  proof (cases "i \<ge> 0")
    case False
    then have "\<forall>k. k \<le> i \<longrightarrow> \<not> matches_at d pattern k" by (auto simp: matches_at_def)
    with False show ?thesis by simp
  next
    case True
    note m = match_loop_matches_at [OF True "1.prems"]
    show ?thesis
    proof (cases "matches_at d pattern i")
      case True
      with m \<open>i \<ge> 0\<close> show ?thesis by auto
    next
      case False
      have "i - 1 \<le> len d - len pattern" using "1.prems" by simp
      from "1.IH" [OF \<open>i \<ge> 0\<close> m False this]
      obtain r where r: "Find_backward d pattern (i - 1) = Some r"
        "(r = - 1 \<and> (\<forall>k. k \<le> i - 1 \<longrightarrow> \<not> matches_at d pattern k)) \<or>
         (0 \<le> r \<and> r \<le> i - 1 \<and> matches_at d pattern r \<and>
          (\<forall>k. r < k \<and> k \<le> i - 1 \<longrightarrow> \<not> matches_at d pattern k))"
        by blast
      have step: "Find_backward d pattern i = Some r"
        using True m False r(1) by simp
      from r(2) show ?thesis
      proof
        assume a: "r = - 1 \<and> (\<forall>k. k \<le> i - 1 \<longrightarrow> \<not> matches_at d pattern k)"
        have "\<forall>k. k \<le> i \<longrightarrow> \<not> matches_at d pattern k"
        proof (intro allI impI)
          fix k assume "k \<le> i"
          then consider "k = i" | "k \<le> i - 1" by linarith
          then show "\<not> matches_at d pattern k" using a False by cases auto
        qed
        with a step show ?thesis by simp
      next
        assume a: "0 \<le> r \<and> r \<le> i - 1 \<and> matches_at d pattern r \<and>
          (\<forall>k. r < k \<and> k \<le> i - 1 \<longrightarrow> \<not> matches_at d pattern k)"
        have "\<forall>k. r < k \<and> k \<le> i \<longrightarrow> \<not> matches_at d pattern k"
        proof (intro allI impI)
          fix k assume "r < k \<and> k \<le> i"
          then consider "k = i" | "r < k \<and> k \<le> i - 1" by linarith
          then show "\<not> matches_at d pattern k" using a False by cases auto
        qed
        with a step show ?thesis by simp
      qed
    qed
  qed
qed


text \<open>
  C5. For \<open>startOffset \<ge> 0\<close> \<open>Find\<close> returns normally. It returns \<open>-1\<close> when the pattern or the
  content is empty. Otherwise, forward, it returns the lowest index \<open>i \<ge> startOffset\<close> with
  \<open>i \<le> size - len(pattern)\<close> at which the pattern matches byte for byte, or \<open>-1\<close> if there is
  none; backward, it returns the highest matching index
  \<open>i \<le> min(startOffset - 1, size - len(pattern))\<close> with \<open>i \<ge> 0\<close>, or \<open>-1\<close> if there is none.
\<close>

theorem Find_result:
  assumes "0 \<le> startOffset" and "startOffset < 2 ^ 63"
  shows "\<exists>r. Find b pattern startOffset forward = Some r \<and>
     (pattern = [] \<or> data b = [] \<longrightarrow> r = - 1) \<and>
     (pattern \<noteq> [] \<and> data b \<noteq> [] \<and> forward \<longrightarrow>
        (r = - 1 \<and> (\<forall>k. startOffset \<le> k \<longrightarrow> \<not> matches_at (data b) pattern k)) \<or>
        (startOffset \<le> r \<and> r \<le> Size b - len pattern \<and> matches_at (data b) pattern r \<and>
         (\<forall>k. startOffset \<le> k \<and> k < r \<longrightarrow> \<not> matches_at (data b) pattern k))) \<and>
     (pattern \<noteq> [] \<and> data b \<noteq> [] \<and> \<not> forward \<longrightarrow>
        (r = - 1 \<and> (\<forall>k. k \<le> min (startOffset - 1) (Size b - len pattern) \<longrightarrow>
                        \<not> matches_at (data b) pattern k)) \<or>
        (0 \<le> r \<and> r \<le> min (startOffset - 1) (Size b - len pattern) \<and>
         matches_at (data b) pattern r \<and>
         (\<forall>k. r < k \<and> k \<le> min (startOffset - 1) (Size b - len pattern) \<longrightarrow>
                \<not> matches_at (data b) pattern k)))"
proof (cases "pattern = [] \<or> data b = []")
  case True
  then show ?thesis by (auto simp: Find_def)
next
  case False
  show ?thesis
  proof (cases forward)
    case True
    have f: "Find b pattern startOffset forward = Find_forward (data b) pattern startOffset"
      using False True by (simp add: Find_def)
    from Find_forward_lowest [OF assms(1), of "data b" pattern]
    show ?thesis using False True unfolding f by (auto simp: matches_at_def Size_def)
  next
    case nf: False
    define start where "start = min (startOffset - 1) (Size b - len pattern)"
    have w: "wrap64 (startOffset - 1) = startOffset - 1"
      using assms by (intro wrap64_id) simp_all
    have f: "Find b pattern startOffset forward = Find_backward (data b) pattern start"
      using False nf by (simp add: Find_def w Let_def start_def Size_def min_def)
    have "start \<le> len (data b) - len pattern" by (simp add: start_def Size_def)
    from Find_backward_highest [OF this]
    show ?thesis using False nf unfolding f start_def [symmetric] by auto
  qed
qed

theorem Find_result_witness:
  "(0 :: int) \<le> 0 \<and> (0 :: int) < 2 ^ 63 \<and> (4 :: int) < 2 ^ 63 \<and>
   Find (New\<lparr>data := [1, 2, 1, 2, 3]\<rparr>) [1, 2] 0 True = Some 0 \<and>
   Find (New\<lparr>data := [1, 2, 1, 2, 3]\<rparr>) [1, 2] 1 True = Some 2 \<and>
   Find (New\<lparr>data := [1, 2, 1, 2, 3]\<rparr>) [1, 2] 3 True = Some (- 1) \<and>
   Find (New\<lparr>data := [1, 2, 1, 2, 3]\<rparr>) [1, 2] 4 False = Some 2 \<and>
   Find (New\<lparr>data := [1, 2, 1, 2, 3]\<rparr>) [1, 2] 0 False = Some (- 1) \<and>
   Find (New\<lparr>data := [1, 2, 1, 2, 3]\<rparr>) [] 0 True = Some (- 1) \<and>
   matches_at [1, 2, 1, 2, 3] [1, 2] 2 \<and> \<not> matches_at [1, 2, 1, 2, 3] [1, 2] 1 \<and>
   \<not> matches_at [1, 2, 1, 2, 3] [1, 2] 3"
proof -
  let ?b = "New\<lparr>data := [1, 2, 1, 2, 3]\<rparr>"
  have ev: "Find ?b [1, 2] 0 True = Some 0" "Find ?b [1, 2] 1 True = Some 2"
    "Find ?b [1, 2] 3 True = Some (- 1)" "Find ?b [1, 2] 4 False = Some 2"
    "Find ?b [1, 2] 0 False = Some (- 1)" "Find ?b [] 0 True = Some (- 1)"
    by code_simp+
  have d: "data ?b = [1, 2, 1, 2, 3]" by simp
  from Find_result [of 1 ?b "[1, 2]" True] ev(2)
  have 1: "matches_at [1, 2, 1, 2, 3] [1, 2] 2 \<and> \<not> matches_at [1, 2, 1, 2, 3] [1, 2] 1"
    unfolding d by auto
  from Find_result [of 4 ?b "[1, 2]" False] ev(4)
  have 2: "\<not> matches_at [1, 2, 1, 2, 3] [1, 2] 3" unfolding d by (auto simp: Size_def)
  from Find_result [of 0 ?b "[]" True] ev(6)
  have 3: "Find ?b [] 0 True = Some (- 1)" by simp
  from 1 2 3 ev show ?thesis by simp
qed

section \<open>ReplaceBytes\<close>

lemma map_upt_0_Suc: "map f [0..<Suc k] = f 0 # map (\<lambda>i. f (Suc i)) [0..<k]"
  by (simp add: upt_conv_Cons map_Suc_upt [symmetric] del: upt_Suc)

lemma map_upt_Suc_Suc: "map g [Suc k..<Suc n] = map (\<lambda>i. g (Suc i)) [k..<n]"
  by (simp add: map_Suc_upt [symmetric] del: upt_Suc)

lemma ReplaceBytes_log_replace:
  assumes "0 \<le> p" "p < len d"
  shows "ReplaceBytes_log d p (x # xs) =
           \<lparr>Type = OpReplace, Offset = p, OldData = [d ! nat p], NewData = [x]\<rparr> #
           ReplaceBytes_log (d[nat p := x]) (p + 1) xs"
proof -
  define m where "m = nat p"
  have m: "m < length d" "p = int m" using assms by (simp_all add: m_def)
  define k where "k = min (length xs) (length d - Suc m)"
  have k: "min (length (x # xs)) (length d - m) = Suc k" using m by (auto simp: k_def min_def)
  have k': "min (length xs) (length (d[m := x]) - nat (int m + 1)) = k"
    by (simp add: k_def nat_add_distrib)
  have n1: "nat (int m + 1) = Suc m" by simp
  show ?thesis
    unfolding ReplaceBytes_log_def Let_def m(2) k k' nat_int n1
    by (simp add: map_upt_0_Suc map_upt_Suc_Suc k_def [symmetric] add.assoc del: upt_Suc)
qed

lemma ReplaceBytes_log_insert:
  assumes "0 \<le> p" "len d \<le> p"
  shows "ReplaceBytes_log d p (x # xs) =
           \<lparr>Type = OpInsert, Offset = len d, OldData = [], NewData = [x]\<rparr> #
           ReplaceBytes_log (d @ [x]) (p + 1) xs"
proof -
  define m where "m = nat p"
  have m: "length d \<le> m" "p = int m" using assms by (simp_all add: m_def)
  have k: "min (length (x # xs)) (length d - m) = 0" using m by simp
  have k': "min (length xs) (length (d @ [x]) - nat (int m + 1)) = 0"
    using m by (simp add: nat_add_distrib)
  show ?thesis
    unfolding ReplaceBytes_log_def Let_def m(2) k k' nat_int
    by (simp add: map_upt_0_Suc del: upt_Suc)
qed


lemma ReplaceBytes_log_Nil: "ReplaceBytes_log d p [] = []"
  by (simp add: ReplaceBytes_log_def)

lemma ReplaceBytes_loop_eq:
  assumes "0 \<le> offset + i" "offset + i + len ds \<le> 2 ^ 63" "len (data b) + len ds < 2 ^ 63"
  shows "ReplaceBytes_loop b offset i ds =
     Some (if ds = [] then b
           else b\<lparr>undoStack := undoStack b @ ReplaceBytes_log (data b) (offset + i) ds,
                  redoStack := [],
                  data := take (nat (offset + i)) (data b) @ ds @
                          drop (nat (offset + i) + length ds) (data b),
                  modified := True\<rparr>)"
  using assms
proof (induction ds arbitrary: b i)
  case Nil
  show ?case by simp
next
  case (Cons x xs)
  define p where "p = offset + i"
  define m where "m = nat p"
  have p: "0 \<le> p" "p = int m" using Cons.prems by (simp_all add: p_def m_def)
  have w: "wrap64 (offset + i) = p"
    unfolding p_def using Cons.prems by (intro wrap64_id) simp_all
  show ?case
  proof (cases "p \<ge> len (data b)")
    case True
    define b1 where "b1 = b\<lparr>undoStack := undoStack b @
         [\<lparr>Type = OpInsert, Offset = len (data b), OldData = [], NewData = [x]\<rparr>],
                            redoStack := [], data := data b @ [x], modified := True\<rparr>"
    have ins: "Insert b (len (data b)) [x] = Some b1"
      using Cons.prems(3) Insert_eq [of b "[x]" "len (data b)"] by (simp add: b1_def)
    have pre: "0 \<le> offset + (i + 1)" "offset + (i + 1) + len xs \<le> 2 ^ 63"
              "len (data b1) + len xs < 2 ^ 63"
      using Cons.prems by (simp_all add: b1_def)
    have lg: "ReplaceBytes_log (data b) p (x # xs) =
              \<lparr>Type = OpInsert, Offset = len (data b), OldData = [], NewData = [x]\<rparr> #
              ReplaceBytes_log (data b @ [x]) (p + 1) xs"
      using p(1) True by (rule ReplaceBytes_log_insert)
    have pp: "offset + (i + 1) = p + 1" by (simp add: p_def)
    have tk: "take m (data b) = data b" "drop (m + k) (data b) = []" for k
      using True p by simp_all
    have tk1: "take (nat (p + 1)) (data b1) = data b @ [x]"
              "drop (nat (p + 1) + k) (data b1) = []" for k
      using True p by (simp_all add: b1_def)
    have u1: "undoStack b1 = undoStack b @
         [\<lparr>Type = OpInsert, Offset = len (data b), OldData = [], NewData = [x]\<rparr>]"
             "data b1 = data b @ [x]"
      by (simp_all add: b1_def)
    have st1: "redoStack b1 = []" "modified b1" by (simp_all add: b1_def)
    have "ReplaceBytes_loop b offset i (x # xs) = ReplaceBytes_loop b1 offset (i + 1) xs"
      using True ins by (simp add: w Let_def)
    also have "\<dots> = Some (if xs = [] then b1
           else b1\<lparr>undoStack := undoStack b1 @ ReplaceBytes_log (data b1) (p + 1) xs,
                  redoStack := [],
                  data := take (nat (p + 1)) (data b1) @ xs @
                          drop (nat (p + 1) + length xs) (data b1),
                  modified := True\<rparr>)"
      using Cons.IH [OF pre] by (simp only: pp)
    also have "\<dots> = Some (b1\<lparr>undoStack := undoStack b1 @
                    ReplaceBytes_log (data b @ [x]) (p + 1) xs,
                  redoStack := [], data := data b @ [x] @ xs, modified := True\<rparr>)"
      unfolding tk1 by (cases "xs = []") (simp_all add: ReplaceBytes_log_Nil b1_def)
    also have "\<dots> = Some (b\<lparr>undoStack := undoStack b @ ReplaceBytes_log (data b) p (x # xs),
                  redoStack := [],
                  data := take m (data b) @ (x # xs) @ drop (m + length (x # xs)) (data b),
                  modified := True\<rparr>)"
      unfolding lg tk by (simp add: b1_def)
    finally show ?thesis by (simp add: p_def [symmetric] m_def [symmetric])
  next
    case False
    then have lt: "m < length (data b)" using p by simp
    define b1 where "b1 = b\<lparr>undoStack := undoStack b @
         [\<lparr>Type = OpReplace, Offset = p, OldData = [data b ! m], NewData = [x]\<rparr>],
                            redoStack := [], data := (data b)[m := x], modified := True\<rparr>"
    have rep: "Replace b p x = Some b1"
      using False p(1) Replace_eq [of p b x] by (simp add: b1_def m_def)
    have pre: "0 \<le> offset + (i + 1)" "offset + (i + 1) + len xs \<le> 2 ^ 63"
              "len (data b1) + len xs < 2 ^ 63"
      using Cons.prems by (simp_all add: b1_def)
    have lg: "ReplaceBytes_log (data b) p (x # xs) =
              \<lparr>Type = OpReplace, Offset = p, OldData = [data b ! m], NewData = [x]\<rparr> #
              ReplaceBytes_log ((data b)[m := x]) (p + 1) xs"
      unfolding m_def using p(1) False by (intro ReplaceBytes_log_replace) simp_all
    have pp: "offset + (i + 1) = p + 1" by (simp add: p_def)
    have n1: "nat (p + 1) = Suc m" using p by simp
    have tk1: "take (Suc m) ((data b)[m := x]) = take m (data b) @ [x]"
      using lt by (simp add: take_Suc_conv_app_nth)
    have dr1: "drop (Suc m + k) ((data b)[m := x]) = drop (Suc (m + k)) (data b)" for k
      by simp
    have "ReplaceBytes_loop b offset i (x # xs) = ReplaceBytes_loop b1 offset (i + 1) xs"
      using False rep by (simp add: w Let_def)
    also have "\<dots> = Some (if xs = [] then b1
           else b1\<lparr>undoStack := undoStack b1 @ ReplaceBytes_log (data b1) (p + 1) xs,
                  redoStack := [],
                  data := take (nat (p + 1)) (data b1) @ xs @
                          drop (nat (p + 1) + length xs) (data b1),
                  modified := True\<rparr>)"
      using Cons.IH [OF pre] by (simp only: pp)
    also have "\<dots> = Some (b\<lparr>undoStack := undoStack b @ ReplaceBytes_log (data b) p (x # xs),
                  redoStack := [],
                  data := take m (data b) @ (x # xs) @ drop (m + length (x # xs)) (data b),
                  modified := True\<rparr>)"
      unfolding lg n1 b1_def using lt
      by (simp add: tk1 dr1 ReplaceBytes_log_Nil upd_conv_take_nth_drop add.commute)
    finally show ?thesis by (simp add: p_def [symmetric] m_def [symmetric])
  qed
qed


lemma ReplaceBytes_log_past_end:
  "len d \<le> offset \<Longrightarrow>
   ReplaceBytes_log d offset ds =
     map (\<lambda>i. \<lparr>Type = OpInsert, Offset = len d + int i, OldData = [], NewData = [ds ! i]\<rparr>)
       [0..<length ds]"
  by (simp add: ReplaceBytes_log_def)

lemma length_ReplaceBytes_log: "length (ReplaceBytes_log d offset ds) = length ds"
  by (simp add: ReplaceBytes_log_def Let_def)

lemma last_ReplaceBytes_log:
  assumes "0 \<le> offset" "len d < offset + len ds" "ds \<noteq> []"
  shows "ReplaceBytes_log d offset ds \<noteq> [] \<and>
         last (ReplaceBytes_log d offset ds) =
           \<lparr>Type = OpInsert, Offset = min (len d) offset + len ds - 1,
             OldData = [], NewData = [last ds]\<rparr>"
proof -
  define m where "m = nat offset"
  have m: "offset = int m" using assms(1) by (simp add: m_def)
  define k where "k = min (length ds) (length d - m)"
  have n: "0 < length ds" using assms(3) by simp
  have over: "length d < m + length ds" using assms(2) unfolding m by linarith
  have "length d - m < length ds" using over n by arith
  then have k: "k < length ds" by (simp add: k_def)
  have l: "last ds = ds ! (length ds - 1)" using assms(3) by (simp add: last_conv_nth)
  have "length d + (length ds - 1 - k) = min (length d) m + length ds - 1"
    using over n by (auto simp: k_def min_def)
  then have "int (length d + (length ds - 1 - k)) = int (min (length d) m + length ds - 1)"
    by (simp only:)
  then have o: "len d + int (length ds - Suc k) = min (len d) offset + len ds - 1"
    using n unfolding m by (simp add: of_nat_diff min_def)
  have ne2: "[k..<length ds] \<noteq> []" and lu: "last [k..<length ds] = length ds - 1"
    using k assms(3) by simp_all
  show ?thesis
    unfolding ReplaceBytes_log_def Let_def m_def [symmetric] k_def [symmetric]
    using ne2 assms(3) by (simp add: last_map lu l o del: upt_eq_Nil_conv)
qed

text \<open>
  While no position \<open>offset + i\<close> leaves the \<open>int64\<close> range (\<open>offset \<ge> 0\<close> and
  \<open>offset + len(data) \<le> 2^63\<close>), \<open>ReplaceBytes\<close> returns normally, with the bytes written from
  \<open>offset\<close> on (appended, when \<open>offset\<close> is past the end) and with one operation logged per
  byte: a Replace for each position below the size, then a single-byte Insert at the current
  end for each further byte. So extending a buffer by \<open>n\<close> bytes pushes \<open>n\<close> Insert operations,
  and the next \<open>Undo\<close> takes back the last byte only.
\<close>

theorem ReplaceBytes_steps:
  assumes "0 \<le> offset" and "offset + len ds \<le> 2 ^ 63" and "len (data b) + len ds < 2 ^ 63"
  shows "\<exists>b'. ReplaceBytes b offset ds = Some b' \<and>
     data b' = take (nat offset) (data b) @ ds @ drop (nat offset + length ds) (data b) \<and>
     undoStack b' = undoStack b @ ReplaceBytes_log (data b) offset ds \<and>
     length (undoStack b') = length (undoStack b) + length ds \<and>
     (Size b \<le> offset \<longrightarrow>
        data b' = data b @ ds \<and>
        undoStack b' = undoStack b @
          map (\<lambda>i. \<lparr>Type = OpInsert, Offset = Size b + int i, OldData = [], NewData = [ds ! i]\<rparr>)
            [0..<length ds]) \<and>
     (ds \<noteq> [] \<and> Size b < offset + len ds \<longrightarrow>
        (\<exists>b''. Undo b' = Some (b'', True) \<and> data b'' = butlast (data b') \<and>
               redoStack b'' =
                 [\<lparr>Type = OpInsert, Offset = Size b' - 1, OldData = [], NewData = [last ds]\<rparr>]))"
proof (cases "ds = []")
  case True
  then show ?thesis
    using assms by (simp add: ReplaceBytes_def ReplaceBytes_log_Nil Size_def)
next
  case False
  define d where "d = data b"
  define b' where "b' = b\<lparr>undoStack := undoStack b @ ReplaceBytes_log d offset ds,
                  redoStack := [],
                  data := take (nat offset) d @ ds @ drop (nat offset + length ds) d,
                  modified := True\<rparr>"
  have rb: "ReplaceBytes b offset ds = Some b'"
    using ReplaceBytes_loop_eq [of offset 0 ds b] assms False
    by (simp add: ReplaceBytes_def b'_def d_def)
  have d': "data b' = take (nat offset) d @ ds @ drop (nat offset + length ds) d"
    and u': "undoStack b' = undoStack b @ ReplaceBytes_log d offset ds"
    and r': "redoStack b' = []"
    by (simp_all add: b'_def)
  have lu: "length (undoStack b') = length (undoStack b) + length ds"
    by (simp add: u' length_ReplaceBytes_log)
  have past: "data b' = d @ ds \<and>
        undoStack b' = undoStack b @
          map (\<lambda>i. \<lparr>Type = OpInsert, Offset = len d + int i, OldData = [], NewData = [ds ! i]\<rparr>)
            [0..<length ds]" if "len d \<le> offset"
    using that by (simp add: d' u' ReplaceBytes_log_past_end)
  have undo: "\<exists>b''. Undo b' = Some (b'', True) \<and> data b'' = butlast (data b') \<and>
               redoStack b'' =
                 [\<lparr>Type = OpInsert, Offset = len (data b') - 1, OldData = [], NewData = [last ds]\<rparr>]"
    if over: "len d < offset + len ds"
  proof -
    define op where "op = \<lparr>Type = OpInsert, Offset = min (len d) offset + len ds - 1,
             OldData = [], NewData = [last ds]\<rparr>"
    from last_ReplaceBytes_log [OF assms(1) over False]
    have lg: "ReplaceBytes_log d offset ds \<noteq> []" "last (ReplaceBytes_log d offset ds) = op"
      by (simp_all add: op_def)
    have une: "undoStack b' \<noteq> []" and lop: "op = last (undoStack b')"
      using lg by (simp_all add: u')
    have dr: "drop (nat offset + length ds) d = []" using over assms(1) by simp
    have dl: "data b' = take (nat offset) d @ butlast ds @ [last ds]"
      using False by (simp add: d' dr)
    define p where "p = take (nat offset) d @ butlast ds"
    have dp: "data b' = p @ [last ds]" by (simp add: dl p_def)
    have "length p = min (nat offset) (length d) + (length ds - 1)" by (simp add: p_def)
    then have lp: "len p = min (len d) offset + len ds - 1"
      using False assms(1) by (cases ds) (auto simp: min_def)
    have rec: "recorded op p" using lp False by (simp add: recorded_def op_def)
    have fa: "data b' = forward_apply op p"
      using lp by (simp add: forward_apply_def op_def dp Let_def)
    have "length (data b') \<le> length d + length ds" by (simp add: d')
    then have "len (data b') \<le> len (data b) + len ds" unfolding d_def by linarith
    then have bd: "length (data b') < 2 ^ 63" using assms(3) by simp
    have bp: "length p < 2 ^ 63" using bd by (simp add: dp)
    from Undo_step [OF une lop rec fa bp bd]
    have "Undo b' = Some (b'\<lparr>undoStack := butlast (undoStack b'), data := p,
                          redoStack := redoStack b' @ [op],
                          modified := (butlast (undoStack b') \<noteq> [])\<rparr>, True)" .
    moreover have "p = butlast (data b')" by (simp add: dp)
    moreover have "Offset op = len (data b') - 1" using lp by (simp add: op_def dp)
    ultimately show ?thesis by (simp add: r' op_def)
  qed
  show ?thesis
    unfolding Size_def d_def [symmetric]
    using rb d' u' lu past undo by blast
qed


theorem ReplaceBytes_steps_witness:
  "ReplaceBytes (New\<lparr>data := [1, 2, 3]\<rparr>) 2 [7, 8, 9] =
     Some \<lparr>filename = [], data = [1, 2, 7, 8, 9], originalHash = [], modified = True,
       undoStack = [\<lparr>Type = OpReplace, Offset = 2, OldData = [3], NewData = [7]\<rparr>,
                    \<lparr>Type = OpInsert, Offset = 3, OldData = [], NewData = [8]\<rparr>,
                    \<lparr>Type = OpInsert, Offset = 4, OldData = [], NewData = [9]\<rparr>],
       redoStack = [], isNew = True\<rparr> \<and>
   (\<exists>b''. Undo \<lparr>filename = [], data = [1, 2, 7, 8, 9], originalHash = [], modified = True,
       undoStack = [\<lparr>Type = OpReplace, Offset = 2, OldData = [3], NewData = [7]\<rparr>,
                    \<lparr>Type = OpInsert, Offset = 3, OldData = [], NewData = [8]\<rparr>,
                    \<lparr>Type = OpInsert, Offset = 4, OldData = [], NewData = [9]\<rparr>],
       redoStack = [], isNew = True\<rparr> = Some (b'', True) \<and>
      data b'' = [1, 2, 7, 8] \<and>
      redoStack b'' = [\<lparr>Type = OpInsert, Offset = 4, OldData = [], NewData = [9]\<rparr>]) \<and>
   ReplaceBytes (New\<lparr>data := [1, 2, 3]\<rparr>) 5 [7, 8] =
     Some \<lparr>filename = [], data = [1, 2, 3, 7, 8], originalHash = [], modified = True,
       undoStack = [\<lparr>Type = OpInsert, Offset = 3, OldData = [], NewData = [7]\<rparr>,
                    \<lparr>Type = OpInsert, Offset = 4, OldData = [], NewData = [8]\<rparr>],
       redoStack = [], isNew = True\<rparr>"
proof -
  let ?b = "New\<lparr>data := [1, 2, 3]\<rparr>"
  let ?b1 = "\<lparr>filename = [], data = [1, 2, 7, 8, 9], originalHash = [], modified = True,
       undoStack = [\<lparr>Type = OpReplace, Offset = 2, OldData = [3], NewData = [7]\<rparr>,
                    \<lparr>Type = OpInsert, Offset = 3, OldData = [], NewData = [8]\<rparr>,
                    \<lparr>Type = OpInsert, Offset = 4, OldData = [], NewData = [9]\<rparr>],
       redoStack = [], isNew = True\<rparr>"
  let ?b2 = "\<lparr>filename = [], data = [1, 2, 3, 7, 8], originalHash = [], modified = True,
       undoStack = [\<lparr>Type = OpInsert, Offset = 3, OldData = [], NewData = [7]\<rparr>,
                    \<lparr>Type = OpInsert, Offset = 4, OldData = [], NewData = [8]\<rparr>],
       redoStack = [], isNew = True\<rparr>"
  have ev: "ReplaceBytes ?b 2 [7, 8, 9] = Some ?b1" "ReplaceBytes ?b 5 [7, 8] = Some ?b2"
    by code_simp+
  have h1: "(0 :: int) \<le> 2" "2 + len [7, 8, 9 :: byte] \<le> 2 ^ 63"
           "len (data ?b) + len [7, 8, 9 :: byte] < 2 ^ 63"
    by simp_all
  have h2: "(0 :: int) \<le> 5" "5 + len [7, 8 :: byte] \<le> 2 ^ 63"
           "len (data ?b) + len [7, 8 :: byte] < 2 ^ 63"
    by simp_all
  from ReplaceBytes_steps [OF h1] obtain b' where
    b': "ReplaceBytes ?b 2 [7, 8, 9] = Some b'" and
    u: "[7, 8, 9 :: byte] \<noteq> [] \<and> Size ?b < 2 + len [7, 8, 9 :: byte] \<longrightarrow>
        (\<exists>b''. Undo b' = Some (b'', True) \<and> data b'' = butlast (data b') \<and>
               redoStack b'' =
                 [\<lparr>Type = OpInsert, Offset = Size b' - 1, OldData = [],
                   NewData = [last [7, 8, 9]]\<rparr>])"
    by blast
  from b' ev(1) have e1: "b' = ?b1" by simp
  have 1: "\<exists>b''. Undo ?b1 = Some (b'', True) \<and> data b'' = [1, 2, 7, 8] \<and>
      redoStack b'' = [\<lparr>Type = OpInsert, Offset = 4, OldData = [], NewData = [9]\<rparr>]"
    using u unfolding e1 by (simp add: Size_def)
  from ReplaceBytes_steps [OF h2] obtain c' where
    c': "ReplaceBytes ?b 5 [7, 8] = Some c'" and
    v: "Size ?b \<le> 5 \<longrightarrow> data c' = data ?b @ [7, 8]"
    by blast
  from c' ev(2) have e2: "c' = ?b2" by simp
  have 2: "data ?b2 = [1, 2, 3, 7, 8]" using v unfolding e2 by (simp add: Size_def)
  from ev 1 2 show ?thesis by simp
qed

text \<open>
  C6 fails on the code for an offset at the top of the \<open>int64\<close> range. On a buffer with
  content \<open>[1]\<close>, \<open>ReplaceBytes(MaxInt64, [7, 8])\<close> appends the first byte (position
  \<open>MaxInt64\<close> is past the end), but for the second byte \<open>offset + int64(i)\<close> wraps around to
  \<open>MinInt64\<close>: the test \<open>pos >= len(b.data)\<close> fails, \<open>Replace\<close> returns at its range guard, and
  the byte is dropped. The result is \<open>[1, 7]\<close> with one Insert on the undo stack, where the
  claim has every byte at or past the end appended by an Insert of its own.
\<close>

theorem ReplaceBytes_drops_byte_on_overflow:
  "ReplaceBytes (New\<lparr>data := [1]\<rparr>) (2 ^ 63 - 1) [7, 8] =
     Some \<lparr>filename = [], data = [1, 7], originalHash = [], modified = True,
       undoStack = [\<lparr>Type = OpInsert, Offset = 1, OldData = [], NewData = [7]\<rparr>],
       redoStack = [], isNew = True\<rparr>"
  by code_simp

end
